theory Spec2Isabelle
  imports Complex_Main
begin

section \<open>Data model\<close>

text \<open>
  The status strings a token can carry: \<open>"pending"\<close> and \<open>"sep"\<close> are assigned by the
  tokenizer, the other three by the aligner, by the manual marking buttons and by
  the rollback (\<open>tokenize.js\<close>, \<open>aligner.js\<close>, \<open>app.js\<close>).
\<close>

datatype status = Pending | Correct | Incorrect | Skipped | Sep

text \<open>
  A token as the tokenizer builds it: \<open>{ id, text, norm, isWord, status, phonetic }\<close>.
  Strings are lists of characters; a character stands for the code point of the same
  number (Basic Latin and Latin-1, U+0000 to U+00FF). The field \<open>phonetic\<close> is
  \<open>None\<close> where the token carries no array of codes (separators).
\<close>

record token =
  tid :: nat
  ttext :: string
  norm :: string
  isWord :: bool
  status :: status
  phonetic :: "(string \<times> string) option"

text \<open>
  A decision record as \<open>markAndAdvance\<close> and the aligner's \<open>updateStatus\<close> hook push it.
  The field \<open>automatic\<close> is absent from manual decisions (\<open>None\<close>).
\<close>

record decision =
  index :: int
  dstatus :: status
  timestamp :: nat
  expected :: string
  heard :: string
  automatic :: "bool option"

section \<open>Double-precision arithmetic\<close>

text \<open>
  JavaScript numbers are IEEE 754 doubles. A finite double is a rational number, and
  \<open>+\<close> and \<open>*\<close> return the exact result rounded to the nearest double, ties to the
  even significand. The model rounds to 53 significant bits with an unbounded
  exponent: a sum or product of doubles that falls below the normal range is exact,
  and no cost of this program comes near the overflow threshold (a JavaScript array
  has fewer than \<open>2^32\<close> elements).
\<close>

text \<open>The number of binary digits of a positive integer.\<close>

function bitLength :: "int \<Rightarrow> int" where
  "bitLength n = (if n \<le> 0 then 0 else 1 + bitLength (n div 2))"
  by pat_completeness auto
termination
  by (relation "measure (\<lambda>n. nat n)") auto

declare bitLength.simps [simp del]

definition pow2 :: "int \<Rightarrow> rat" where
  "pow2 e = (if e \<ge> 0 then 2 ^ nat e else 1 / 2 ^ nat (- e))"

definition shiftLeft :: "int \<Rightarrow> int \<Rightarrow> int" where
  "shiftLeft n k = n * 2 ^ nat k"

text \<open>The exponent \<open>e\<close> with \<open>2^e \<le> n / d < 2^(e + 1)\<close>, for positive \<open>n\<close> and \<open>d\<close>.\<close>

definition binaryExponent :: "int \<Rightarrow> int \<Rightarrow> int" where
  "binaryExponent n d =
     (let e0 = bitLength n - bitLength d
      in if (if e0 \<ge> 0 then shiftLeft d e0 \<le> n else d \<le> shiftLeft n (- e0)) then e0 else e0 - 1)"

text \<open>The integer nearest to \<open>n / d\<close>, the even one of the two when \<open>n / d\<close> lies halfway.\<close>

definition roundHalfEven :: "int \<Rightarrow> int \<Rightarrow> int" where
  "roundHalfEven n d =
     (let f = n div d; r = n mod d
      in if 2 * r < d then f else if d < 2 * r then f + 1 else if f mod 2 = 0 then f else f + 1)"

text \<open>
  The double nearest to \<open>n / d\<close> (\<open>d > 0\<close>): the quotient is scaled by the unit in the
  last place \<open>2^s\<close>, \<open>s = e - 52\<close>, rounded to an integer of at most 53 bits and
  scaled back.
\<close>

definition roundFraction :: "int \<Rightarrow> int \<Rightarrow> rat" where
  "roundFraction n d =
     (if n = 0 then 0
      else let a = \<bar>n\<bar>;
               s = binaryExponent a d - 52;
               m = (if s \<le> 0 then roundHalfEven (shiftLeft a (- s)) d
                    else roundHalfEven a (shiftLeft d s))
           in of_int (sgn n * m) * pow2 s)"

definition toDouble :: "rat \<Rightarrow> rat" where
  "toDouble q = roundFraction (fst (quotient_of q)) (snd (quotient_of q))"

definition fadd :: "rat \<Rightarrow> rat \<Rightarrow> rat" where
  "fadd x y = toDouble (x + y)"

definition fmul :: "rat \<Rightarrow> rat \<Rightarrow> rat" where
  "fmul x y = toDouble (x * y)"

section \<open>The auto-backtrack cost (\<open>app.js\<close>, \<open>calculateAlignmentCost\<close>)\<close>

text \<open>
  The body of the loop of \<open>calculateAlignmentCost\<close>, on its two local variables
  \<open>cost\<close> and \<open>consecutiveErrors\<close>. Every \<open>cost += x\<close> is one double addition; the
  literal \<open>0.1\<close> is the double nearest to 1/10, while \<open>0.5\<close> and \<open>1.0\<close> are exact. The
  \<open>switch\<close> has no default branch: a status other than the three named leaves both
  variables as they are, and the penalty test below the \<open>switch\<close> runs for every
  record. The counter is a whole number below \<open>2^32\<close> and is modelled as a natural
  number.
\<close>

fun costStep :: "decision \<Rightarrow> rat \<times> nat \<Rightarrow> rat \<times> nat" where
  "costStep d (cost, consecutiveErrors) =
     (let (cost1, errs1) =
        (case dstatus d of
           Correct \<Rightarrow> (fadd cost (toDouble (1 / 10)), 0)
         | Incorrect \<Rightarrow> (fadd cost 1, consecutiveErrors + 1)
         | Skipped \<Rightarrow> (fadd cost (1 / 2), consecutiveErrors + 1)
         | _ \<Rightarrow> (cost, consecutiveErrors));
          cost2 = (if errs1 \<ge> 3 then fadd cost1 (fmul (of_nat errs1) (1 / 2)) else cost1)
      in (cost2, errs1))"

text \<open>The function: both variables start at 0, the loop runs over the records in order.\<close>

definition calculateAlignmentCost :: "decision list \<Rightarrow> rat" where
  "calculateAlignmentCost decisions = fst (fold costStep decisions (0, 0))"

subsection \<open>The cost as the specification words it\<close>

text \<open>The contribution of one record: the doubles 0.1, 0.5 or 1.0.\<close>

definition contribution :: "decision \<Rightarrow> rat" where
  "contribution d =
     (case dstatus d of
        Correct \<Rightarrow> toDouble (1 / 10) | Skipped \<Rightarrow> 1 / 2 | Incorrect \<Rightarrow> 1 | _ \<Rightarrow> 0)"

text \<open>
  The lengths of the maximal runs of consecutive non-correct records of a window, in
  order; \<open>c\<close> is the length of the run that is open at the start. A correct record
  closes the open run (runs of length 0 are listed too; they carry no penalty).
\<close>

fun errorRunsFrom :: "nat \<Rightarrow> decision list \<Rightarrow> nat list" where
  "errorRunsFrom c [] = [c]"
| "errorRunsFrom c (d # ds) =
     (if dstatus d = Correct then c # errorRunsFrom 0 ds else errorRunsFrom (Suc c) ds)"

definition errorRuns :: "decision list \<Rightarrow> nat list" where
  "errorRuns ds = errorRunsFrom 0 ds"

text \<open>
  The specification's reading: one charge of \<open>0.5 \<times> L\<close> for a run of length
  \<open>L \<ge> 3\<close>, added to the contributions (summed in doubles, contributions first).
\<close>

definition specRunPenalty :: "nat \<Rightarrow> rat" where
  "specRunPenalty L = (if L \<ge> 3 then fmul (1 / 2) (of_nat L) else 0)"

definition specDriftCost :: "decision list \<Rightarrow> rat" where
  "specDriftCost ds = foldl fadd 0 (map contribution ds @ map specRunPenalty (errorRuns ds))"

text \<open>
  What the loop adds, described record by record without the loop's counter: the
  number of non-correct records that end the window's prefix up to and including
  record \<open>i\<close> is the length of the run that record \<open>i\<close> continues; record \<open>i\<close> adds its
  contribution and then, when that length \<open>k\<close> is at least 3, the penalty
  \<open>0.5 \<times> k\<close>. A maximal run of length \<open>L\<close> is thus charged at its third, fourth,
  ..., \<open>L\<close>-th record: \<open>0.5 \<times> 3\<close>, \<open>0.5 \<times> 4\<close>, ..., \<open>0.5 \<times> L\<close>.
\<close>

definition notCorrect :: "decision \<Rightarrow> bool" where
  "notCorrect d = (dstatus d \<noteq> Correct)"

definition trailingErrors :: "decision list \<Rightarrow> nat" where
  "trailingErrors ds = length (takeWhile notCorrect (rev ds))"

definition addendsAt :: "decision list \<Rightarrow> nat \<Rightarrow> rat list" where
  "addendsAt ds i =
     contribution (ds ! i)
       # (if 3 \<le> trailingErrors (take (Suc i) ds)
          then [fmul (of_nat (trailingErrors (take (Suc i) ds))) (1 / 2)] else [])"

definition addends :: "decision list \<Rightarrow> rat list" where
  "addends ds = concat (map (addendsAt ds) [0..<length ds])"

definition decided :: "decision \<Rightarrow> bool" where
  "decided d = (dstatus d = Correct \<or> dstatus d = Incorrect \<or> dstatus d = Skipped)"

definition mkDecision :: "int \<Rightarrow> status \<Rightarrow> decision" where
  "mkDecision i s =
     \<lparr>index = i, dstatus = s, timestamp = 0, expected = [], heard = [], automatic = None\<rparr>"

section \<open>The decision ring buffer (\<open>decisionBuffer.js\<close>)\<close>

text \<open>
  The class \<open>DecisionBuffer\<close>: \<open>size\<close>, the array \<open>buffer\<close>, \<open>head\<close> and \<open>count\<close>. The
  capacity is a positive integer (the application constructs the buffer with 20);
  the model does not cover a capacity of 0, where JavaScript's \<open>%\<close> yields NaN.
\<close>

record decisionBuffer =
  bsize :: nat
  buffer :: "decision list"
  head :: nat
  count :: nat

definition newDecisionBuffer :: "nat \<Rightarrow> decisionBuffer" where
  "newDecisionBuffer n = \<lparr>bsize = n, buffer = [], head = 0, count = 0\<rparr>"

text \<open>
  \<open>push\<close>: append while \<open>count < size\<close>, otherwise overwrite the slot at \<open>head\<close> and
  advance \<open>head\<close>. The write \<open>buffer[head] = decision\<close> would extend the array if
  \<open>head\<close> were past its end; lemma \<open>bufferInv_head_in_range\<close> below shows that this does
  not happen in a buffer built by the constructor, \<open>push\<close>, \<open>clear\<close> and the undo of
  \<open>backOne\<close>.
\<close>

definition push :: "decisionBuffer \<Rightarrow> decision \<Rightarrow> decisionBuffer" where
  "push b d =
     (if count b < bsize b
      then b\<lparr>buffer := buffer b @ [d], count := count b + 1\<rparr>
      else b\<lparr>buffer := (buffer b)[head b := d], head := (head b + 1) mod bsize b\<rparr>)"

text \<open>
  JavaScript's \<open>%\<close> on integers truncates towards zero: the result has the sign of
  the dividend.
\<close>

definition jsRem :: "int \<Rightarrow> int \<Rightarrow> int" where
  "jsRem a b = (if a \<ge> 0 then a mod \<bar>b\<bar> else - ((- a) mod \<bar>b\<bar>))"

text \<open>
  \<open>getRecent(count)\<close>: the whole array when the argument is at least the stored
  count; otherwise the loop over \<open>i\<close> reads slot \<open>(head - count + i + size) % size\<close>
  and keeps the entry when the slot holds one (a read outside the array is
  \<open>undefined\<close> and is skipped).
\<close>

definition getRecent :: "decisionBuffer \<Rightarrow> nat \<Rightarrow> decision list" where
  "getRecent b k =
     (if k \<ge> count b then buffer b
      else concat (map (\<lambda>i.
             let idx = jsRem (int (head b) - int k + int i + int (bsize b)) (int (bsize b))
             in if 0 \<le> idx \<and> nat idx < length (buffer b) then [buffer b ! nat idx] else [])
           [0..<k]))"

definition clear :: "decisionBuffer \<Rightarrow> decisionBuffer" where
  "clear b = b\<lparr>buffer := [], head := 0, count := 0\<rparr>"

text \<open>
  The undo of the last push. The class has no method for it: it is the block under
  the comment "Remove the last decision from buffer" in \<open>backOne\<close> (\<open>app.js\<close>), which
  writes \<open>count\<close> and \<open>head\<close> of the buffer directly and leaves the array alone.
\<close>

definition removeLastDecision :: "decisionBuffer \<Rightarrow> decisionBuffer" where
  "removeLastDecision b =
     (if count b > 0
      then (let b1 = b\<lparr>count := count b - 1\<rparr>
            in if count b1 = 0 then b1\<lparr>head := 0\<rparr>
               else b1\<lparr>head := nat (jsRem (int (head b1) - 1 + int (bsize b1)) (int (bsize b1)))\<rparr>)
      else b)"

text \<open>Pushing a list of decisions in order.\<close>

definition pushAll :: "decisionBuffer \<Rightarrow> decision list \<Rightarrow> decisionBuffer" where
  "pushAll b ds = foldl push b ds"

text \<open>The buffers built by the constructor, \<open>push\<close>, \<open>clear\<close> and the undo.\<close>

inductive reachableBuffer :: "decisionBuffer \<Rightarrow> bool" where
  rb_new: "n \<ge> 1 \<Longrightarrow> reachableBuffer (newDecisionBuffer n)"
| rb_push: "reachableBuffer b \<Longrightarrow> reachableBuffer (push b d)"
| rb_clear: "reachableBuffer b \<Longrightarrow> reachableBuffer (clear b)"
| rb_undo: "reachableBuffer b \<Longrightarrow> reachableBuffer (removeLastDecision b)"

definition bufferInv :: "decisionBuffer \<Rightarrow> bool" where
  "bufferInv b =
     (bsize b \<ge> 1 \<and> head b < bsize b \<and> count b \<le> bsize b \<and> count b \<le> length (buffer b))"

section \<open>Word navigation (\<open>tokenize.js\<close>)\<close>

datatype error = TypeError

text \<open>
  \<open>prevWordIndex\<close> and \<open>nextWordIndex\<close>: the loops read \<open>tokens[i].isWord\<close>; a read past
  the end of the array yields \<open>undefined\<close>, whose property access throws.
\<close>

function prevWordLoop :: "token list \<Rightarrow> int \<Rightarrow> error + int" where
  "prevWordLoop ts i =
     (if i \<ge> 0
      then (if i \<ge> int (length ts) then Inl TypeError
            else if isWord (ts ! nat i) then Inr i
            else prevWordLoop ts (i - 1))
      else Inr (- 1))"
  by pat_completeness auto
termination
  by (relation "measure (\<lambda>(ts, i). nat (i + 1))") auto

declare prevWordLoop.simps [simp del]

definition prevWordIndex :: "token list \<Rightarrow> int \<Rightarrow> error + int" where
  "prevWordIndex ts fromIndex = prevWordLoop ts (fromIndex - 1)"

function nextWordLoop :: "token list \<Rightarrow> int \<Rightarrow> error + int" where
  "nextWordLoop ts i =
     (if i < int (length ts)
      then (if i < 0 then Inl TypeError
            else if isWord (ts ! nat i) then Inr i
            else nextWordLoop ts (i + 1))
      else Inr (- 1))"
  by pat_completeness auto
termination
  by (relation "measure (\<lambda>(ts, i). nat (int (length ts) - i))") auto

declare nextWordLoop.simps [simp del]

definition nextWordIndex :: "token list \<Rightarrow> int \<Rightarrow> error + int" where
  "nextWordIndex ts fromIndex = nextWordLoop ts (fromIndex + 1)"

text \<open>\<open>firstWordIndex\<close>: \<open>findIndex\<close>, which yields -1 when no token is a word.\<close>

definition firstWordIndex :: "token list \<Rightarrow> int" where
  "firstWordIndex ts =
     (case find (\<lambda>i. isWord (ts ! i)) [0..<length ts] of Some i \<Rightarrow> int i | None \<Rightarrow> - 1)"

section \<open>Word normalisation (\<open>tokenize.js\<close>, \<open>normalizeWord\<close>)\<close>

text \<open>
  The Unicode tables the function relies on, for the code points U+0000 to U+00FF:
  the lower-case mapping of \<open>toLowerCase\<close>, the letters (\<open>\p{L}\<close>), the numbers
  (\<open>\p{N}\<close>) and the white space of \<open>\s\<close>.
\<close>

definition toLowerChar :: "char \<Rightarrow> char" where
  "toLowerChar c =
     (let n = (of_char c :: nat)
      in if (65 \<le> n \<and> n \<le> 90) \<or> (192 \<le> n \<and> n \<le> 222 \<and> n \<noteq> 215)
         then char_of (n + 32) else c)"

definition toLowerCase :: "string \<Rightarrow> string" where
  "toLowerCase w = map toLowerChar w"

definition isLetter :: "char \<Rightarrow> bool" where
  "isLetter c =
     (let n = (of_char c :: nat)
      in (65 \<le> n \<and> n \<le> 90) \<or> (97 \<le> n \<and> n \<le> 122) \<or> n = 170 \<or> n = 181 \<or> n = 186
         \<or> (192 \<le> n \<and> n \<le> 214) \<or> (216 \<le> n \<and> n \<le> 246) \<or> (248 \<le> n \<and> n \<le> 255))"

definition isNumber :: "char \<Rightarrow> bool" where
  "isNumber c =
     (let n = (of_char c :: nat)
      in (48 \<le> n \<and> n \<le> 57) \<or> n = 178 \<or> n = 179 \<or> n = 185 \<or> (188 \<le> n \<and> n \<le> 190))"

definition isSpace :: "char \<Rightarrow> bool" where
  "isSpace c = (let n = (of_char c :: nat) in (9 \<le> n \<and> n \<le> 13) \<or> n = 32 \<or> n = 160)"

text \<open>
  The first replacement of \<open>normalizeWord\<close> removes the leading and the trailing run
  of characters that are neither letters nor numbers.
\<close>

definition edgePunct :: "char \<Rightarrow> bool" where
  "edgePunct c = (\<not> (isLetter c \<or> isNumber c))"

definition stripEdges :: "string \<Rightarrow> string" where
  "stripEdges w = rev (dropWhile edgePunct (rev (dropWhile edgePunct w)))"

text \<open>
  The second replacement removes every character of the class written in the source
  as apostrophe, apostrophe, backtick, acute accent, hyphen, en dash, em dash, minus
  sign. Between the acute accent (U+00B4) and the en dash (U+2013) the hyphen is the
  range operator of the character class, so the class holds U+0027, U+0060, every
  code point from U+00B4 to U+2013, U+2014 and U+2212; the hyphen U+002D itself is
  not in it.
\<close>

definition collapsible :: "char \<Rightarrow> bool" where
  "collapsible c = (let n = (of_char c :: nat) in n = 39 \<or> n = 96 \<or> 180 \<le> n)"

definition normalizeWord :: "string \<Rightarrow> string" where
  "normalizeWord w =
     (if w = [] then []
      else let lower = toLowerCase w;
               stripped = stripEdges lower;
               collapsed = filter (\<lambda>c. \<not> collapsible c) stripped
           in collapsed)"

text \<open>
  \<open>phrase.split(/\s+/)\<close>: the pieces between maximal runs of white space; a run at
  the start or at the end of the phrase leaves an empty piece there.
\<close>

function splitLoop :: "string \<Rightarrow> string \<Rightarrow> string list" where
  "splitLoop cur [] = [cur]"
| "splitLoop cur (c # cs) =
     (if isSpace c then cur # splitLoop [] (dropWhile isSpace cs)
      else splitLoop (cur @ [c]) cs)"
  by pat_completeness auto
termination
  by (relation "measure (\<lambda>(cur, cs). length cs)")
     (auto simp: length_dropWhile_le le_imp_less_Suc)

definition splitWhitespace :: "string \<Rightarrow> string list" where
  "splitWhitespace phrase = splitLoop [] phrase"

section \<open>Similarity (\<open>aligner.js\<close>)\<close>

text \<open>
  The function \<open>levenshtein\<close> of \<open>aligner.js\<close>: one array \<open>dp\<close> of \<open>n + 1\<close> cells,
  rewritten in place for each character of \<open>a\<close>; \<open>prev\<close> holds the cell of the
  previous row to the left of the one being written.
\<close>

definition levInner :: "'a \<Rightarrow> 'a list \<Rightarrow> nat \<Rightarrow> nat list \<times> nat \<Rightarrow> nat list \<times> nat" where
  "levInner ai b j st =
     (let dp = fst st; prev = snd st; temp = dp ! j
      in (if ai = b ! (j - 1) then dp[j := prev]
          else dp[j := min (prev + 1) (min (dp ! j + 1) (dp ! (j - 1) + 1))], temp))"

definition levRow :: "'a list \<Rightarrow> 'a list \<Rightarrow> nat \<Rightarrow> nat list \<Rightarrow> nat list" where
  "levRow a b i dp =
     (let prev = dp ! 0
      in fst (fold (levInner (a ! (i - 1)) b) [1..<Suc (length b)] (dp[0 := i], prev)))"

definition levenshtein :: "'a list \<Rightarrow> 'a list \<Rightarrow> nat" where
  "levenshtein a b =
     (let m = length a; n = length b
      in if m = 0 then n
         else if n = 0 then m
         else fold (levRow a b) [1..<Suc m] [0..<Suc n] ! n)"

text \<open>\<open>Math.max(a.length, b.length) || 1\<close>.\<close>

definition maxLen :: "'a list \<Rightarrow> 'a list \<Rightarrow> nat" where
  "maxLen a b = (let l = max (length a) (length b) in if l = 0 then 1 else l)"

definition similarity :: "'a list \<Rightarrow> 'a list \<Rightarrow> real" where
  "similarity a b = 1 - real (levenshtein a b) / real (maxLen a b)"

subsection \<open>The edit distance as the specification words it\<close>

text \<open>
  The classic Levenshtein distance: the least number of single-character insertions,
  deletions and substitutions that turn one string into the other.
\<close>

fun editDistance :: "'a list \<Rightarrow> 'a list \<Rightarrow> nat" where
  "editDistance [] ys = length ys"
| "editDistance xs [] = length xs"
| "editDistance (x # xs) (y # ys) =
     min (editDistance xs ys + (if x = y then 0 else 1))
         (min (editDistance xs (y # ys) + 1) (editDistance (x # xs) ys + 1))"

section \<open>The beam search aligner (\<open>aligner.js\<close> and its phonetic revision)\<close>

text \<open>
  The phonetic revision of the aligner imports two functions from libraries outside
  the repository: the edit distance of \<open>fastest-levenshtein\<close> and \<open>doubleMetaphone\<close>.
  They are parameters of the model. \<open>doubleMetaphone\<close> yields \<open>None\<close> where the call
  throws or does not return an array.
\<close>

record library =
  levenshteinLib :: "string \<Rightarrow> string \<Rightarrow> nat"
  doubleMetaphone :: "string \<Rightarrow> (string \<times> string) option"

text \<open>The steps of an alignment path, with the fields each kind carries.\<close>

datatype step =
    Match int string real
  | Substitution int string string real
  | Deletion int string real
  | Insertion string real

record alignmentState =
  textPos :: int
  spokenPos :: nat
  cost :: real
  path :: "step list"

record aligner =
  tokens :: "token list"
  pointer :: int
  beamWidth :: nat
  threshold :: real
  margin :: real
  windowSize :: nat
  phoneticEnabled :: bool
  phoneticWeight :: real
  spokenBuffer :: "string list"
  beam :: "alignmentState list"

definition FILLERS :: "string set" where
  "FILLERS = {''uh'', ''um'', ''er'', ''ah'', ''eh'', ''mm'', ''hmm''}"

definition resetBeam :: "aligner \<Rightarrow> aligner" where
  "resetBeam A = A\<lparr>beam := [\<lparr>textPos = pointer A, spokenPos = 0, cost = 0, path = []\<rparr>]\<rparr>"

text \<open>
  The constructor of the phonetic revision; \<open>aligner.js\<close> has no phonetic fields and
  compares by \<open>similarity\<close> alone, which is the revision with phonetic matching off
  and the edit distance of \<open>aligner.js\<close> in place of the library's.
\<close>

definition newAligner :: "token list \<Rightarrow> aligner" where
  "newAligner ts =
     resetBeam \<lparr>tokens = ts, pointer = firstWordIndex ts, beamWidth = 4, threshold = 0.8,
                margin = 0.1, windowSize = 10, phoneticEnabled = True, phoneticWeight = 0.6,
                spokenBuffer = [], beam = []\<rparr>"

definition newAlignerPlain :: "token list \<Rightarrow> aligner" where
  "newAlignerPlain ts = (newAligner ts)\<lparr>phoneticEnabled := False\<rparr>"

definition plainLibrary :: library where
  "plainLibrary = \<lparr>levenshteinLib = levenshtein, doubleMetaphone = (\<lambda>w. None)\<rparr>"

text \<open>
  \<open>setConfig\<close>: every option is applied only when it is a finite number (a boolean
  for \<open>phoneticEnabled\<close>); \<open>None\<close> stands for an option that is absent or not finite.
\<close>

record config =
  cfgBeamWidth :: "real option"
  cfgThreshold :: "real option"
  cfgMargin :: "real option"
  cfgWindowSize :: "real option"
  cfgPhoneticEnabled :: "bool option"
  cfgPhoneticWeight :: "real option"

definition setConfig :: "config \<Rightarrow> aligner \<Rightarrow> aligner" where
  "setConfig c A =
     (let A1 = (case cfgBeamWidth c of
                  Some v \<Rightarrow> A\<lparr>beamWidth := nat (max 2 (min 10 \<lfloor>v\<rfloor>))\<rparr> | None \<Rightarrow> A);
          A2 = (case cfgThreshold c of
                  Some v \<Rightarrow> A1\<lparr>threshold := min 1 (max 0 v)\<rparr> | None \<Rightarrow> A1);
          A3 = (case cfgMargin c of
                  Some v \<Rightarrow> A2\<lparr>margin := min 1 (max 0 v)\<rparr> | None \<Rightarrow> A2);
          A4 = (case cfgWindowSize c of
                  Some v \<Rightarrow> A3\<lparr>windowSize := nat (max 5 (min 20 \<lfloor>v\<rfloor>))\<rparr> | None \<Rightarrow> A3);
          A5 = (case cfgPhoneticEnabled c of
                  Some v \<Rightarrow> A4\<lparr>phoneticEnabled := v\<rparr> | None \<Rightarrow> A4);
          A6 = (case cfgPhoneticWeight c of
                  Some v \<Rightarrow> A5\<lparr>phoneticWeight := max 0 (min 1 v)\<rparr> | None \<Rightarrow> A5)
      in A6)"

text \<open>\<open>Aligner.setPointer\<close> stores the index (and notifies the UI hook); the beam is not touched.\<close>

definition setPointer :: "int \<Rightarrow> aligner \<Rightarrow> aligner" where
  "setPointer idx A = A\<lparr>pointer := idx\<rparr>"

text \<open>The similarity of the phonetic revision, over the library's edit distance.\<close>

definition similarityWith :: "library \<Rightarrow> string \<Rightarrow> string \<Rightarrow> real" where
  "similarityWith lib a b = 1 - real (levenshteinLib lib a b) / real (maxLen a b)"

definition truthy :: "string \<Rightarrow> bool" where
  "truthy s = (s \<noteq> [])"

definition bestPairSim :: "library \<Rightarrow> string \<times> string \<Rightarrow> real \<Rightarrow> real" where
  "bestPairSim lib ab best =
     (let sim = 1 - real (levenshteinLib lib (fst ab) (snd ab)) / real (maxLen (fst ab) (snd ab))
      in if sim > best then sim else best)"

definition combinedSimilarity ::
    "library \<Rightarrow> aligner \<Rightarrow> string \<Rightarrow> string \<times> string \<Rightarrow> token \<Rightarrow> real" where
  "combinedSimilarity lib A spokenWord spokenPhonetic textToken =
     (let textSim = similarityWith lib spokenWord (norm textToken)
      in if phoneticEnabled A = False then textSim
         else
           let tPhon = (case phonetic textToken of Some p \<Rightarrow> p | None \<Rightarrow> ([], []));
               s0 = fst spokenPhonetic; s1 = snd spokenPhonetic;
               t0 = fst tPhon; t1 = snd tPhon;
               phonSim =
                 (if truthy t0 \<or> truthy t1 \<or> truthy s0 \<or> truthy s1
                  then (if (truthy s0 \<and> (s0 = t0 \<or> s0 = t1)) \<or> (truthy s1 \<and> (s1 = t0 \<or> s1 = t1))
                        then 1
                        else fold (bestPairSim lib)
                               (concat (map (\<lambda>a. map (\<lambda>b. (a, b)) (filter truthy [t0, t1]))
                                            (filter truthy [s0, s1])))
                               0)
                  else 0);
               blended = phoneticWeight A * phonSim + (1 - phoneticWeight A) * textSim
           in max textSim blended)"

definition canMatch :: "library \<Rightarrow> aligner \<Rightarrow> string \<Rightarrow> string \<times> string \<Rightarrow> token \<Rightarrow> bool" where
  "canMatch lib A spokenWord spokenPhonetic textToken =
     (combinedSimilarity lib A spokenWord spokenPhonetic textToken \<ge> threshold A)"

text \<open>
  \<open>_generateTransitions\<close>: the successors of \<open>state\<close> for the candidate token
  \<open>textToken\<close> at index \<open>textPos\<close>, in the order in which the source pushes them.
\<close>

definition generateTransitions ::
    "library \<Rightarrow> aligner \<Rightarrow> alignmentState \<Rightarrow> int \<Rightarrow> token \<Rightarrow> string \<Rightarrow> string \<times> string
       \<Rightarrow> alignmentState list" where
  "generateTransitions lib A state tPos textToken spokenWord spokenPhonetic =
     (let sim = combinedSimilarity lib A spokenWord spokenPhonetic textToken;
          matchCost = 1 - sim;
          subCost = 1 - sim;
          insertCost = (if spokenWord \<in> FILLERS then 0.1 else 0.3)
      in (if canMatch lib A spokenWord spokenPhonetic textToken
          then [\<lparr>textPos = tPos + 1, spokenPos = spokenPos state + 1,
                 cost = cost state + matchCost,
                 path = path state @ [Match tPos spokenWord matchCost]\<rparr>]
          else [])
         @ [\<lparr>textPos = tPos + 1, spokenPos = spokenPos state + 1,
              cost = cost state + subCost,
              path = path state @ [Substitution tPos spokenWord (norm textToken) subCost]\<rparr>,
            \<lparr>textPos = tPos + 1, spokenPos = spokenPos state,
              cost = cost state + 0.5,
              path = path state @ [Deletion tPos (norm textToken) 0.5]\<rparr>,
            \<lparr>textPos = tPos, spokenPos = spokenPos state + 1,
              cost = cost state + insertCost,
              path = path state @ [Insertion spokenWord insertCost]\<rparr>])"

text \<open>
  \<open>_getTextTokensInWindow\<close>: the loop reads \<open>this.tokens[pos].isWord\<close> for every
  \<open>pos\<close> below the length of the array; at a negative \<open>pos\<close> the element is
  \<open>undefined\<close> and the read throws.
\<close>

function windowLoop ::
    "token list \<Rightarrow> nat \<Rightarrow> int \<Rightarrow> nat \<Rightarrow> (int \<times> token) list \<Rightarrow> error + (int \<times> token) list" where
  "windowLoop ts ws pos cnt acc =
     (if pos < int (length ts) \<and> cnt < ws
      then (if pos < 0 then Inl TypeError
            else if isWord (ts ! nat pos)
                 then windowLoop ts ws (pos + 1) (cnt + 1) (acc @ [(pos, ts ! nat pos)])
                 else windowLoop ts ws (pos + 1) cnt acc)
      else Inr acc)"
  by pat_completeness auto
termination
  by (relation "measure (\<lambda>(ts, ws, pos, cnt, acc). nat (int (length ts) - pos))") auto

declare windowLoop.simps [simp del]

definition getTextTokensInWindow :: "aligner \<Rightarrow> int \<Rightarrow> error + (int \<times> token) list" where
  "getTextTokensInWindow A startPos = windowLoop (tokens A) (windowSize A) startPos 0 []"

text \<open>\<open>_pruneBeam\<close>: the stable sort by cost, cut at the beam width.\<close>

definition pruneBeam :: "aligner \<Rightarrow> alignmentState list \<Rightarrow> alignmentState list" where
  "pruneBeam A states = take (beamWidth A) (sort_key cost states)"

text \<open>The two nested loops of \<open>_expandBeam\<close> that fill \<open>newBeam\<close>.\<close>

fun expandStates ::
    "library \<Rightarrow> aligner \<Rightarrow> string \<Rightarrow> string \<times> string \<Rightarrow> alignmentState list
       \<Rightarrow> error + alignmentState list" where
  "expandStates lib A spokenWord spokenPhonetic [] = Inr []"
| "expandStates lib A spokenWord spokenPhonetic (state # rest) =
     (case getTextTokensInWindow A (textPos state) of
        Inl e \<Rightarrow> Inl e
      | Inr textTokens \<Rightarrow>
          (case expandStates lib A spokenWord spokenPhonetic rest of
             Inl e \<Rightarrow> Inl e
           | Inr others \<Rightarrow>
               Inr (concat (map (\<lambda>(tPos, textToken).
                        generateTransitions lib A state tPos textToken spokenWord spokenPhonetic)
                      textTokens) @ others)))"

definition expandBeam :: "library \<Rightarrow> aligner \<Rightarrow> string \<Rightarrow> error + aligner" where
  "expandBeam lib A spokenWord =
     (let spokenPhonetic =
            (if phoneticEnabled A
             then (case doubleMetaphone lib spokenWord of Some codes \<Rightarrow> codes | None \<Rightarrow> ([], []))
             else ([], []))
      in case expandStates lib A spokenWord spokenPhonetic (beam A) of
           Inl e \<Rightarrow> Inl e
         | Inr newBeam \<Rightarrow> Inr (A\<lparr>beam := pruneBeam A newBeam\<rparr>))"

text \<open>
  \<open>_mark\<close>: a token that does not exist or is not a word is left alone. The UI hooks
  it calls are outside the aligner.
\<close>

definition mark :: "int \<Rightarrow> status \<Rightarrow> aligner \<Rightarrow> aligner" where
  "mark idx st A =
     (if 0 \<le> idx \<and> idx < int (length (tokens A)) \<and> isWord (tokens A ! nat idx)
      then A\<lparr>tokens := (tokens A)[nat idx := (tokens A ! nat idx)\<lparr>status := st\<rparr>]\<rparr>
      else A)"

fun applyStep :: "step \<Rightarrow> aligner \<Rightarrow> aligner" where
  "applyStep (Match tPos w c) A = mark tPos Correct A"
| "applyStep (Substitution tPos w e c) A = mark tPos Incorrect A"
| "applyStep (Deletion tPos e c) A = mark tPos Skipped A"
| "applyStep (Insertion w c) A = A"

definition applyPath :: "step list \<Rightarrow> aligner \<Rightarrow> aligner" where
  "applyPath steps A = fold applyStep steps A"

text \<open>\<open>_checkAdvancement\<close>.\<close>

definition bestOf :: "alignmentState list \<Rightarrow> alignmentState" where
  "bestOf states = foldl (\<lambda>best current. if cost current < cost best then current else best)
                     (hd states) (tl states)"

definition checkAdvancement :: "aligner \<Rightarrow> aligner" where
  "checkAdvancement A =
     (if beam A = [] then A
      else let bestState = bestOf (beam A);
               bestTextPos = textPos bestState;
               bestCost = cost bestState;
               competitiveStates =
                 filter (\<lambda>s. textPos s \<ge> bestTextPos - 1 \<and> cost s \<le> bestCost + margin A) (beam A)
           in if length competitiveStates = 1
                 \<or> (bestTextPos > pointer A + 2 \<and> bestCost < real (length (beam A)) * 0.5)
              then resetBeam (setPointer bestTextPos (applyPath (path bestState) A))
              else A)"

fun expandAll :: "library \<Rightarrow> aligner \<Rightarrow> string list \<Rightarrow> error + aligner" where
  "expandAll lib A [] = Inr A"
| "expandAll lib A (w # ws) =
     (case expandBeam lib A w of Inl e \<Rightarrow> Inl e | Inr A' \<Rightarrow> expandAll lib A' ws)"

definition processBeamSearch :: "library \<Rightarrow> aligner \<Rightarrow> error + aligner" where
  "processBeamSearch lib A =
     (if spokenBuffer A = [] then Inr A
      else case expandAll lib A (spokenBuffer A) of
             Inl e \<Rightarrow> Inl e
           | Inr A' \<Rightarrow> Inr ((checkAdvancement A')\<lparr>spokenBuffer := []\<rparr>))"

definition phraseWords :: "string \<Rightarrow> string list" where
  "phraseWords phrase = filter truthy (map normalizeWord (splitWhitespace phrase))"

definition advanceWithPhrase :: "library \<Rightarrow> aligner \<Rightarrow> string \<Rightarrow> error + (nat \<times> aligner)" where
  "advanceWithPhrase lib A phrase =
     (if phrase = [] then Inr (0, A)
      else let ws = phraseWords phrase;
               A1 = A\<lparr>spokenBuffer := spokenBuffer A @ ws\<rparr>
           in case processBeamSearch lib A1 of
                Inl e \<Rightarrow> Inl e
              | Inr A2 \<Rightarrow> Inr (length ws, A2))"

text \<open>
  The aligners an application can hold: built by a constructor and driven by
  \<open>setConfig\<close> and by rounds of \<open>advanceWithPhrase\<close> that return.
\<close>

inductive reachableAligner :: "library \<Rightarrow> aligner \<Rightarrow> bool" for lib :: library where
  ra_new: "reachableAligner lib (newAligner ts)"
| ra_plain: "reachableAligner lib (newAlignerPlain ts)"
| ra_config: "reachableAligner lib A \<Longrightarrow> reachableAligner lib (setConfig c A)"
| ra_round: "reachableAligner lib A \<Longrightarrow> advanceWithPhrase lib A phrase = Inr (n, A')
               \<Longrightarrow> reachableAligner lib A'"

definition beamAhead :: "aligner \<Rightarrow> bool" where
  "beamAhead A = list_all (\<lambda>s. pointer A \<le> textPos s) (beam A)"

section \<open>The session controller (\<open>app.js\<close>)\<close>

text \<open>
  The fields of the module-level \<open>state\<close> object that the controller's logic reads
  and writes. The aligner is \<open>None\<close> until a text is loaded.
\<close>

record state =
  st_tokens :: "token list"
  st_pointer :: int
  st_sessionActive :: bool
  st_aligner :: "aligner option"
  st_decisionBuffer :: decisionBuffer
  st_backtrackThreshold :: rat
  st_backtrackWindow :: nat

text \<open>
  The aligner is constructed over the array \<open>state.tokens\<close> itself, so a write to a
  token through \<open>state.tokens\<close> is seen through \<open>aligner.tokens\<close> as well. The model
  keeps the two copies equal by writing both.
\<close>

definition writeTokens :: "token list \<Rightarrow> state \<Rightarrow> state" where
  "writeTokens ts st =
     st\<lparr>st_tokens := ts, st_aligner := map_option (\<lambda>A. A\<lparr>tokens := ts\<rparr>) (st_aligner st)\<rparr>"

text \<open>The function \<open>setPointer\<close> of \<open>app.js\<close> (its calls into the UI left out).\<close>

definition appSetPointer :: "int \<Rightarrow> state \<Rightarrow> state" where
  "appSetPointer idx st =
     st\<lparr>st_pointer := idx, st_aligner := map_option (\<lambda>A. A\<lparr>pointer := idx\<rparr>) (st_aligner st)\<rparr>"

text \<open>
  The search for the rollback point in \<open>performAutoBacktrack\<close>: from the newest
  record backwards for a correct one, with -1 as the mark for "none found"; then the
  first record of the window, whose read throws when the window is empty.
\<close>

definition rollbackTarget :: "decision list \<Rightarrow> error + int" where
  "rollbackTarget decisions =
     (let rollbackIndex =
            (case find (\<lambda>d. dstatus d = Correct) (rev decisions) of
               Some d \<Rightarrow> index d | None \<Rightarrow> - 1)
      in if rollbackIndex = - 1
         then (case decisions of [] \<Rightarrow> Inl TypeError | d0 # ds \<Rightarrow> Inr (index d0))
         else Inr rollbackIndex)"

text \<open>The loop that resets the word tokens from \<open>startIdx\<close> to \<open>endIdx\<close>.\<close>

definition resetToken :: "int \<Rightarrow> token list \<Rightarrow> token list" where
  "resetToken i ts =
     (if isWord (ts ! nat i) then ts[nat i := (ts ! nat i)\<lparr>status := Pending\<rparr>] else ts)"

definition resetRange :: "int \<Rightarrow> int \<Rightarrow> token list \<Rightarrow> token list" where
  "resetRange startIdx endIdx ts = fold resetToken [startIdx..endIdx] ts"

definition performAutoBacktrack :: "state \<Rightarrow> decision list \<Rightarrow> error + state" where
  "performAutoBacktrack st decisions =
     (case rollbackTarget decisions of
        Inl e \<Rightarrow> Inl e
      | Inr rollbackIndex \<Rightarrow>
          (let startIdx = max 0 (rollbackIndex - 2);
               endIdx = min (int (length (st_tokens st)) - 1) (st_pointer st);
               st1 = writeTokens (resetRange startIdx endIdx (st_tokens st)) st;
               st2 = appSetPointer rollbackIndex st1
           in Inr (st2\<lparr>st_decisionBuffer := clear (st_decisionBuffer st2)\<rparr>)))"

definition checkAutoBacktrack :: "state \<Rightarrow> error + state" where
  "checkAutoBacktrack st =
     (if count (st_decisionBuffer st) < st_backtrackWindow st then Inr st
      else let recentDecisions = getRecent (st_decisionBuffer st) (st_backtrackWindow st);
               c = calculateAlignmentCost recentDecisions
           in if c > st_backtrackThreshold st then performAutoBacktrack st recentDecisions
              else Inr st)"

text \<open>\<open>markAndAdvance\<close>, called with one of \<open>"correct"\<close>, \<open>"incorrect"\<close>, \<open>"skipped"\<close>.\<close>

definition markAndAdvance :: "nat \<Rightarrow> status \<Rightarrow> state \<Rightarrow> error + state" where
  "markAndAdvance now s st =
     (if st_pointer st < 0 then Inr st
      else let idx = st_pointer st
           in if idx \<ge> int (length (st_tokens st)) \<or> isWord (st_tokens st ! nat idx) = False
              then Inr st
              else let t = st_tokens st ! nat idx;
                       st1 = st\<lparr>st_decisionBuffer := push (st_decisionBuffer st)
                                  \<lparr>index = idx, dstatus = s, timestamp = now, expected = norm t,
                                   heard = (if s = Correct then norm t else []),
                                   automatic = None\<rparr>\<rparr>;
                       st2 = writeTokens ((st_tokens st1)[nat idx := t\<lparr>status := s\<rparr>]) st1
                   in case nextWordIndex (st_tokens st2) idx of
                        Inl e \<Rightarrow> Inl e
                      | Inr next \<Rightarrow>
                          checkAutoBacktrack
                            (if next \<ge> 0 then appSetPointer next st2 else appSetPointer (- 1) st2))"

text \<open>
  \<open>backOne\<close>: step back to the previous word, reset it to pending, and remove the
  last decision from the buffer.
\<close>

definition backOne :: "state \<Rightarrow> error + state" where
  "backOne st =
     (if st_pointer st < 0 then Inr st
      else case prevWordIndex (st_tokens st) (st_pointer st) of
             Inl e \<Rightarrow> Inl e
           | Inr prev \<Rightarrow>
               if prev \<ge> 0
               then (let st1 = writeTokens
                                 ((st_tokens st)[nat prev := (st_tokens st ! nat prev)\<lparr>status := Pending\<rparr>])
                                 st;
                         st2 = appSetPointer prev st1
                     in Inr (st2\<lparr>st_decisionBuffer := removeLastDecision (st_decisionBuffer st2)\<rparr>))
               else Inr st)"

text \<open>
  \<open>triggerManualBacktrack\<close>: the rollback on the current buffer contents, once four
  decisions are stored.
\<close>

definition triggerManualBacktrack :: "state \<Rightarrow> error + state" where
  "triggerManualBacktrack st =
     (if count (st_decisionBuffer st) < 4 then Inr st
      else performAutoBacktrack st
             (getRecent (st_decisionBuffer st)
                (min (st_backtrackWindow st) (count (st_decisionBuffer st)))))"

text \<open>
  A sequence of manual marks (the buttons and keys that call \<open>markAndAdvance\<close>), and a
  manual backtrack after it; an exception ends the sequence.
\<close>

definition markNext :: "status \<Rightarrow> error + state \<Rightarrow> error + state" where
  "markNext s r = (case r of Inl e \<Rightarrow> Inl e | Inr st \<Rightarrow> markAndAdvance 0 s st)"

definition markAll :: "status list \<Rightarrow> state \<Rightarrow> error + state" where
  "markAll marks st = fold markNext marks (Inr st)"

definition thenManualBacktrack :: "error + state \<Rightarrow> error + state" where
  "thenManualBacktrack r = (case r of Inl e \<Rightarrow> Inl e | Inr st \<Rightarrow> triggerManualBacktrack st)"

text \<open>
  The rollback target as the specification words it, for a window given in
  chronological order (the order of the pushes, oldest record first): the token index
  of the most recent correct record, or of the oldest record when none is correct.
\<close>

definition specRollbackTarget :: "decision list \<Rightarrow> int" where
  "specRollbackTarget chronological =
     (case filter (\<lambda>d. dstatus d = Correct) chronological of
        [] \<Rightarrow> index (hd chronological)
      | c # cs \<Rightarrow> index (last (c # cs)))"

section \<open>Auxiliary notions for the statements\<close>

text \<open>
  The distance between the prefixes of length \<open>i\<close> and \<open>j\<close>, read from their ends:
  the quantity the cell \<open>dp[j]\<close> holds after row \<open>i\<close>.
\<close>

definition prefixDistance :: "'a list \<Rightarrow> 'a list \<Rightarrow> nat \<Rightarrow> nat \<Rightarrow> nat" where
  "prefixDistance a b i j = editDistance (rev (take i a)) (rev (take j b))"

text \<open>The successors of a transition list whose last path step is an insertion.\<close>

fun isInsertion :: "step \<Rightarrow> bool" where
  "isInsertion (Insertion w c) = True"
| "isInsertion s = False"

definition insertionSuccessors :: "alignmentState list \<Rightarrow> alignmentState list" where
  "insertionSuccessors states = filter (\<lambda>s. path s \<noteq> [] \<and> isInsertion (last (path s))) states"

text \<open>Tokens as the tokenizer emits them, for the concrete examples.\<close>

definition wordToken :: "nat \<Rightarrow> string \<Rightarrow> token" where
  "wordToken i w =
     \<lparr>tid = i, ttext = w, norm = w, isWord = True, status = Pending, phonetic = Some ([], [])\<rparr>"

definition sepToken :: "nat \<Rightarrow> string \<Rightarrow> token" where
  "sepToken i w =
     \<lparr>tid = i, ttext = w, norm = [], isWord = False, status = Sep, phonetic = None\<rparr>"

text \<open>
  Concrete data for the examples: a text of two words; the aligner after the phrase
  "a b" has been read against it; a session in which the second word was marked
  incorrect; a text with a six-letter word, an aligner over it with the match
  threshold at 1 whose pointer was then moved by hand to the second word, and that
  aligner after hearing "abcdeg".
\<close>

definition demoTokens :: "token list" where
  "demoTokens = [wordToken 0 ''a'', sepToken 1 '' '', wordToken 2 ''b'']"

definition demoAfter :: aligner where
  "demoAfter =
     \<lparr>tokens = [(wordToken 0 ''a'')\<lparr>status := Correct\<rparr>, sepToken 1 '' '',
                (wordToken 2 ''b'')\<lparr>status := Correct\<rparr>],
      pointer = 3, beamWidth = 4, threshold = 0.8, margin = 0.1, windowSize = 10,
      phoneticEnabled = False, phoneticWeight = 0.6, spokenBuffer = [],
      beam = [\<lparr>textPos = 3, spokenPos = 0, cost = 0, path = []\<rparr>]\<rparr>"

definition demoState :: state where
  "demoState =
     \<lparr>st_tokens = [(wordToken 0 ''a'')\<lparr>status := Correct\<rparr>, sepToken 1 '' '',
                   (wordToken 2 ''b'')\<lparr>status := Incorrect\<rparr>],
      st_pointer = 2, st_sessionActive = True, st_aligner = None,
      st_decisionBuffer = pushAll (newDecisionBuffer 20) [mkDecision 0 Correct, mkDecision 2 Incorrect],
      st_backtrackThreshold = 2, st_backtrackWindow = 8\<rparr>"

definition nearTokens :: "token list" where
  "nearTokens = [wordToken 0 ''abcdef'', sepToken 1 '' '', wordToken 2 ''b'']"

definition strictConfig :: config where
  "strictConfig = \<lparr>cfgBeamWidth = None, cfgThreshold = Some 1, cfgMargin = None,
                    cfgWindowSize = None, cfgPhoneticEnabled = None, cfgPhoneticWeight = None\<rparr>"

definition jumpedAligner :: aligner where
  "jumpedAligner = setPointer 2 (setConfig strictConfig (newAlignerPlain nearTokens))"

definition regressedAligner :: aligner where
  "regressedAligner =
     \<lparr>tokens = [(wordToken 0 ''abcdef'')\<lparr>status := Incorrect\<rparr>, sepToken 1 '' '',
                wordToken 2 ''b''],
      pointer = 1, beamWidth = 4, threshold = 1, margin = 0.1, windowSize = 10,
      phoneticEnabled = False, phoneticWeight = 0.6, spokenBuffer = [],
      beam = [\<lparr>textPos = 1, spokenPos = 0, cost = 0, path = []\<rparr>]\<rparr>"

text \<open>
  A session over a text of 25 words with a decision buffer of 20, the threshold at 5
  and a given window; 24 manual marks on it (21 correct, then 3 incorrect); the 24
  decision records in the order of the marks; and the parts of a session that the
  examples compare.
\<close>

definition longTokens :: "token list" where
  "longTokens = concat (map (\<lambda>i. [wordToken (2 * i) ''w'', sepToken (2 * i + 1) '' '']) [0..<25])"

definition longSession :: "nat \<Rightarrow> state" where
  "longSession window =
     \<lparr>st_tokens = longTokens, st_pointer = 0, st_sessionActive = True,
      st_aligner = Some (newAligner longTokens),
      st_decisionBuffer = newDecisionBuffer 20,
      st_backtrackThreshold = 5, st_backtrackWindow = window\<rparr>"

definition longMarks :: "status list" where
  "longMarks = replicate 21 Correct @ replicate 3 Incorrect"

definition longDecisions :: "decision list" where
  "longDecisions = map (\<lambda>i. mkDecision (2 * int i) (longMarks ! i)) [0..<24]"

definition summary :: "error + state \<Rightarrow> error + (int \<times> int option \<times> nat \<times> status list)" where
  "summary r =
     (case r of
        Inl e \<Rightarrow> Inl e
      | Inr st \<Rightarrow> Inr (st_pointer st, map_option pointer (st_aligner st),
                     count (st_decisionBuffer st),
                     map status (filter isWord (st_tokens st))))"

text \<open>The session of the aligner with the match threshold at 1, before the jump.\<close>

definition jumpSession :: state where
  "jumpSession =
     \<lparr>st_tokens = nearTokens, st_pointer = 0, st_sessionActive = True,
      st_aligner = Some (setConfig strictConfig (newAlignerPlain nearTokens)),
      st_decisionBuffer = newDecisionBuffer 20,
      st_backtrackThreshold = 2, st_backtrackWindow = 8\<rparr>"

section \<open>Properties of the drift cost\<close>

lemma trailingErrors_Nil [simp]: "trailingErrors [] = 0"
  by (simp add: trailingErrors_def)

lemma trailingErrors_snoc:
  "trailingErrors (p @ [d]) = (if dstatus d = Correct then 0 else Suc (trailingErrors p))"
  by (simp add: trailingErrors_def notCorrect_def)

lemma addendsAt_middle:
  "addendsAt (p @ d # ds) (length p) =
     contribution d
       # (if 3 \<le> trailingErrors (p @ [d])
          then [fmul (of_nat (trailingErrors (p @ [d]))) (1 / 2)] else [])"
  by (simp add: addendsAt_def)

lemma costStep_decided:
  assumes "decided d"
  shows "costStep d (acc, c) =
           (foldl fadd acc
              (contribution d
                 # (if 3 \<le> (if dstatus d = Correct then 0 else Suc c)
                    then [fmul (of_nat (if dstatus d = Correct then 0 else Suc c)) (1 / 2)]
                    else [])),
            if dstatus d = Correct then 0 else Suc c)"
proof -
  from assms consider "dstatus d = Correct" | "dstatus d = Incorrect" | "dstatus d = Skipped"
    by (auto simp: decided_def)
  then show ?thesis
    by cases (simp_all add: contribution_def del: of_nat_Suc)
qed

lemma fold_costStep_addends:
  assumes "list_all decided ds"
  shows "fold costStep ds (acc, trailingErrors p) =
           (foldl fadd acc
              (concat (map (addendsAt (p @ ds)) [length p..<length p + length ds])),
            trailingErrors (p @ ds))"
  using assms
proof (induction ds arbitrary: acc p)
  case Nil
  then show ?case by simp
next
  case (Cons d ds)
  from Cons.prems have d: "decided d" and ds: "list_all decided ds" by simp_all
  let ?k = "if dstatus d = Correct then 0 else Suc (trailingErrors p)"
  let ?here = "contribution d # (if 3 \<le> ?k then [fmul (of_nat ?k) (1 / 2)] else [])"
  have k: "trailingErrors (p @ [d]) = ?k" by (rule trailingErrors_snoc)
  have "length p < length p + length (d # ds)" by simp
  then have "[length p..<length p + length (d # ds)]
               = length p # [Suc (length p)..<length p + length (d # ds)]"
    by (rule upt_conv_Cons)
  then have range: "[length p..<length p + length (d # ds)]
                 = length p # [length (p @ [d])..<length (p @ [d]) + length ds]"
    by simp
  have here: "addendsAt (p @ d # ds) (length p) = ?here"
    by (simp only: addendsAt_middle k)
  have "fold costStep (d # ds) (acc, trailingErrors p)
          = fold costStep ds (foldl fadd acc ?here, trailingErrors (p @ [d]))"
    by (simp only: fold_simps costStep_decided [OF d] k o_apply)
  also have "\<dots> = (foldl fadd (foldl fadd acc ?here)
                      (concat (map (addendsAt ((p @ [d]) @ ds))
                         [length (p @ [d])..<length (p @ [d]) + length ds])),
                    trailingErrors ((p @ [d]) @ ds))"
    by (rule Cons.IH [OF ds])
  also have "\<dots> = (foldl fadd acc
                      (concat (map (addendsAt (p @ d # ds)) [length p..<length p + length (d # ds)])),
                    trailingErrors (p @ d # ds))"
  proof -
    have l: "(p @ [d]) @ ds = p @ d # ds" by simp
    have "concat (map (addendsAt (p @ d # ds)) [length p..<length p + length (d # ds)])
            = ?here @ concat (map (addendsAt (p @ d # ds))
                               [length (p @ [d])..<length (p @ [d]) + length ds])"
      unfolding range by (simp only: list.map concat.simps here)
    then show ?thesis by (simp only: foldl_append l)
  qed
  finally show ?case .
qed

text \<open>
  The arithmetic of the model on known doubles: the literal 0.1; 0.1 + 0.2, which is
  0.30000000000000004; the ties at \<open>2^53 + 1\<close> and \<open>2^53 + 3\<close>; three correct
  records, which cost 0.30000000000000004; and a window of eight records whose cost
  is 2.0000000000000004, above the default threshold 2.0, where exact arithmetic
  gives 2.
\<close>

lemma double_examples:
  "toDouble (1 / 10) = 3602879701896397 / 2 ^ 55
   \<and> fadd (toDouble (1 / 10)) (toDouble (2 / 10)) = 5404319552844596 / 2 ^ 54
   \<and> toDouble 9007199254740993 = 9007199254740992
   \<and> toDouble 9007199254740995 = 9007199254740996
   \<and> calculateAlignmentCost [mkDecision 0 Correct, mkDecision 1 Correct, mkDecision 2 Correct]
       = 5404319552844596 / 2 ^ 54
   \<and> calculateAlignmentCost
         [mkDecision 0 Skipped, mkDecision 1 Correct, mkDecision 2 Skipped, mkDecision 3 Correct,
          mkDecision 4 Skipped, mkDecision 5 Correct, mkDecision 6 Correct, mkDecision 7 Correct]
       = 2 + 1 / 2 ^ 51"
  by code_simp

text \<open>
  C1 (as amended). For every window of decision records (each correct, incorrect or
  skipped), the computed drift cost is the sum, accumulated in double-precision
  arithmetic in the order of the records, of each record's contribution (0.1 for a
  correct, 0.5 for a skipped, 1.0 for an incorrect record) followed, whenever the
  run of consecutive non-correct records that the record continues has reached a
  length \<open>k \<ge> 3\<close>, by the penalty \<open>0.5 \<times> k\<close>. A maximal run of length \<open>L\<close> is
  thus charged \<open>0.5 \<times> 3\<close>, \<open>0.5 \<times> 4\<close>, ..., \<open>0.5 \<times> L\<close>, one charge after each
  of its records from the third on, and not a single \<open>0.5 \<times> L\<close>; a correct
  record resets the count.
\<close>

theorem calculateAlignmentCost_addends:
  assumes "list_all decided ds"
  shows "calculateAlignmentCost ds = foldl fadd 0 (addends ds)"
  using fold_costStep_addends [OF assms, of 0 "[]"]
  by (simp add: calculateAlignmentCost_def addends_def)

theorem calculateAlignmentCost_addends_witness:
  "list_all decided [mkDecision 0 Incorrect, mkDecision 1 Skipped, mkDecision 2 Incorrect,
                     mkDecision 3 Incorrect, mkDecision 4 Correct]
   \<and> addends [mkDecision 0 Incorrect, mkDecision 1 Skipped, mkDecision 2 Incorrect,
               mkDecision 3 Incorrect, mkDecision 4 Correct]
       = [1, 1 / 2, 1, 3 / 2, 1, 2, 3602879701896397 / 2 ^ 55]
   \<and> calculateAlignmentCost [mkDecision 0 Incorrect, mkDecision 1 Skipped, mkDecision 2 Incorrect,
                             mkDecision 3 Incorrect, mkDecision 4 Correct]
       = foldl fadd 0 [1, 1 / 2, 1, 3 / 2, 1, 2, 3602879701896397 / 2 ^ 55]
   \<and> calculateAlignmentCost [mkDecision 0 Incorrect, mkDecision 1 Skipped, mkDecision 2 Incorrect,
                             mkDecision 3 Incorrect, mkDecision 4 Correct]
       = 3996944669291315 / 2 ^ 49"
proof -
  let ?ds = "[mkDecision 0 Incorrect, mkDecision 1 Skipped, mkDecision 2 Incorrect,
              mkDecision 3 Incorrect, mkDecision 4 Correct]"
  have h: "list_all decided ?ds" by (simp add: decided_def mkDecision_def)
  have a: "addends ?ds = [1, 1 / 2, 1, 3 / 2, 1, 2, 3602879701896397 / 2 ^ 55]" by code_simp
  have v: "foldl fadd 0 [1, 1 / 2, 1, 3 / 2, 1, 2, 3602879701896397 / 2 ^ 55]
             = (3996944669291315 / 2 ^ 49 :: rat)" by code_simp
  from calculateAlignmentCost_addends [OF h]
  have "calculateAlignmentCost ?ds = foldl fadd 0 (addends ?ds)" .
  with h a v show ?thesis by simp
qed

text \<open>
  C1 as stated fails on a run longer than three: for four incorrect records the loop
  returns \<open>4 \<times> 1.0 + 0.5 \<times> 3 + 0.5 \<times> 4 = 7.5\<close>, where one charge of
  \<open>0.5 \<times> 4\<close> for the run would give 6 (every number here is a double, so no
  rounding is involved).
\<close>

theorem calculateAlignmentCost_single_penalty_counterexample:
  "calculateAlignmentCost [mkDecision 0 Incorrect, mkDecision 1 Incorrect,
                           mkDecision 2 Incorrect, mkDecision 3 Incorrect] = 15 / 2
   \<and> specDriftCost [mkDecision 0 Incorrect, mkDecision 1 Incorrect,
                    mkDecision 2 Incorrect, mkDecision 3 Incorrect] = 6"
  by code_simp

section \<open>Properties of the decision ring buffer\<close>

lemma bufferInv_new: "n \<ge> 1 \<Longrightarrow> bufferInv (newDecisionBuffer n)"
  by (simp add: bufferInv_def newDecisionBuffer_def)

lemma bufferInv_push: "bufferInv b \<Longrightarrow> bufferInv (push b d)"
  by (auto simp: bufferInv_def push_def)

lemma bufferInv_clear: "bufferInv b \<Longrightarrow> bufferInv (clear b)"
  by (auto simp: bufferInv_def clear_def)

lemma bufferInv_undo: "bufferInv b \<Longrightarrow> bufferInv (removeLastDecision b)"
  by (auto simp: bufferInv_def removeLastDecision_def jsRem_def Let_def nat_less_iff zmod_int)

lemma reachableBuffer_inv: "reachableBuffer b \<Longrightarrow> bufferInv b"
  by (induction rule: reachableBuffer.induct)
     (simp_all add: bufferInv_new bufferInv_push bufferInv_clear bufferInv_undo)

lemma bufferInv_head_in_range:
  "reachableBuffer b \<Longrightarrow> \<not> count b < bsize b \<Longrightarrow> head b < length (buffer b)"
  using reachableBuffer_inv [of b] by (simp add: bufferInv_def)


text \<open>
  C2. \<open>getRecent(k)\<close> should return the last \<open>min(k, count)\<close> records, oldest first.
  It does not: while the buffer is not full, a request for fewer records than are
  stored reads the slots at the end of the capacity, which hold nothing (9 records in
  a buffer of 20, the last 8 requested: the result is empty); and once the buffer has
  wrapped, a request for all records returns the array in slot order, not in
  chronological order (capacity 2, records 0, 1, 2 pushed: the result is 2, 1).
\<close>

theorem getRecent_short_window:
  "getRecent (pushAll (newDecisionBuffer 20)
       [mkDecision 0 Correct, mkDecision 1 Correct, mkDecision 2 Incorrect, mkDecision 3 Incorrect,
        mkDecision 4 Incorrect, mkDecision 5 Incorrect, mkDecision 6 Incorrect, mkDecision 7 Incorrect,
        mkDecision 8 Incorrect]) 8 = []
   \<and> getRecent (pushAll (newDecisionBuffer 2)
       [mkDecision 0 Correct, mkDecision 1 Incorrect, mkDecision 2 Skipped]) 2
     = [mkDecision 2 Skipped, mkDecision 1 Incorrect]"
  by (simp add: getRecent_def pushAll_def push_def newDecisionBuffer_def jsRem_def upt_rec)


text \<open>
  C3. A push followed by the undo of \<open>backOne\<close> should restore the retrievable
  contents and the count. It does not: the undo leaves the array alone, so on a fresh
  buffer the undone record is still returned by \<open>getRecent\<close>; and on a full buffer the
  push overwrites the oldest record and keeps the count, after which the undo lowers
  the count by one.
\<close>

theorem push_undo_not_restored:
  "getRecent (newDecisionBuffer 20) 1 = []
   \<and> getRecent (removeLastDecision (push (newDecisionBuffer 20) (mkDecision 0 Correct))) 1
       = [mkDecision 0 Correct]
   \<and> count (pushAll (newDecisionBuffer 2) [mkDecision 0 Correct, mkDecision 1 Correct]) = 2
   \<and> count (removeLastDecision (push (pushAll (newDecisionBuffer 2)
               [mkDecision 0 Correct, mkDecision 1 Correct]) (mkDecision 2 Correct))) = 1"
  by (simp add: getRecent_def pushAll_def push_def newDecisionBuffer_def jsRem_def
        removeLastDecision_def Let_def)

section \<open>Properties of the rollback\<close>

lemma find_rev_filter:
  "find P (rev xs) = (if filter P xs = [] then None else Some (last (filter P xs)))"
proof (induction xs rule: rev_induct)
  case Nil
  then show ?case by simp
next
  case (snoc x xs)
  then show ?case by (cases "P x") simp_all
qed

lemma specRollbackTarget_if:
  "specRollbackTarget decisions =
     (if filter (\<lambda>d. dstatus d = Correct) decisions = [] then index (hd decisions)
      else index (last (filter (\<lambda>d. dstatus d = Correct) decisions)))"
  by (simp add: specRollbackTarget_def split: list.splits)

lemma rollbackTarget_spec:
  assumes "decisions \<noteq> []" and "list_all (\<lambda>d. 0 \<le> index d) decisions"
  shows "rollbackTarget decisions = Inr (specRollbackTarget decisions)"
proof (cases "filter (\<lambda>d. dstatus d = Correct) decisions = []")
  case True
  then have "find (\<lambda>d. dstatus d = Correct) (rev decisions) = None"
    by (simp add: find_rev_filter)
  then show ?thesis
    using assms(1) True
    by (cases decisions) (simp_all add: rollbackTarget_def specRollbackTarget_if del: rev.simps)
next
  case False
  let ?c = "last (filter (\<lambda>d. dstatus d = Correct) decisions)"
  have f: "find (\<lambda>d. dstatus d = Correct) (rev decisions) = Some ?c"
    using False by (simp add: find_rev_filter)
  have "?c \<in> set (filter (\<lambda>d. dstatus d = Correct) decisions)"
    using False by (rule last_in_set)
  then have "?c \<in> set decisions" by simp
  with assms(2) have "0 \<le> index ?c" by (simp add: list_all_iff)
  then show ?thesis
    using False f by (simp add: rollbackTarget_def specRollbackTarget_if Let_def)
qed

lemma length_resetToken [simp]: "length (resetToken i ts) = length ts"
  by (simp add: resetToken_def)

lemma length_resetRange [simp]: "length (resetRange a b ts) = length ts"
proof (induction "nat (b - a + 1)" arbitrary: a ts)
  case 0
  then show ?case by (simp add: resetRange_def)
next
  case (Suc n)
  then have ab: "a \<le> b" and n: "n = nat (b - (a + 1) + 1)" by linarith+
  from Suc(1) [OF n] show ?case
    using ab by (simp add: resetRange_def upto_rec1 [of a b])
qed

lemma nth_resetRange:
  assumes "0 \<le> a" and "b < int (length ts)" and "i < length ts"
  shows "resetRange a b ts ! i =
           (if isWord (ts ! i) \<and> a \<le> int i \<and> int i \<le> b
            then (ts ! i)\<lparr>status := Pending\<rparr> else ts ! i)"
  using assms
proof (induction "nat (b - a + 1)" arbitrary: a ts)
  case 0
  then have "b < a" by linarith
  then show ?case by (auto simp: resetRange_def)
next
  case (Suc n)
  then have ab: "a \<le> b" and n: "n = nat (b - (a + 1) + 1)" by linarith+
  have step: "resetRange a b ts = resetRange (a + 1) b (resetToken a ts)"
    using ab by (simp add: resetRange_def upto_rec1 [of a b])
  have a_lt: "nat a < length ts" using Suc.prems ab by linarith
  have IH: "resetRange (a + 1) b (resetToken a ts) ! i =
           (if isWord (resetToken a ts ! i) \<and> a + 1 \<le> int i \<and> int i \<le> b
            then (resetToken a ts ! i)\<lparr>status := Pending\<rparr> else resetToken a ts ! i)"
    using Suc(1) [OF n, of "resetToken a ts"] Suc.prems by simp
  show ?case
  proof (cases "i = nat a")
    case True
    then have "int i = a" using Suc.prems by simp
    then show ?thesis
      unfolding step IH using True a_lt ab by (simp add: resetToken_def)
  next
    case False
    then have "int i \<noteq> a" by auto
    then show ?thesis
      unfolding step IH using False Suc.prems by (auto simp: resetToken_def)
  qed
qed


text \<open>
  What \<open>performAutoBacktrack\<close> does with the list it is given, when the list is not
  empty and its token indices are \<open>\<ge> 0\<close>: the target is the index of the last
  correct record of the list, or of its first record when none is correct (the
  specification's target if the list is in chronological order); the pointer of the
  session and of the aligner moves to the target; the buffer is emptied; and exactly
  the word tokens from \<open>max(0, target - 2)\<close> through the pointer held before are reset
  to pending.
\<close>

lemma performAutoBacktrack_rollback:
  assumes "decisions \<noteq> []" and "list_all (\<lambda>d. 0 \<le> index d) decisions"
  shows "\<exists>st'. performAutoBacktrack st decisions = Inr st'
           \<and> st_pointer st' = specRollbackTarget decisions
           \<and> map_option pointer (st_aligner st')
               = map_option (\<lambda>A. specRollbackTarget decisions) (st_aligner st)
           \<and> st_decisionBuffer st'
               = \<lparr>bsize = bsize (st_decisionBuffer st), buffer = [], head = 0, count = 0\<rparr>
           \<and> length (st_tokens st') = length (st_tokens st)
           \<and> (\<forall>i < length (st_tokens st).
                 st_tokens st' ! i =
                   (if isWord (st_tokens st ! i)
                       \<and> max 0 (specRollbackTarget decisions - 2) \<le> int i \<and> int i \<le> st_pointer st
                    then (st_tokens st ! i)\<lparr>status := Pending\<rparr>
                    else st_tokens st ! i))"
proof -
  let ?rb = "specRollbackTarget decisions"
  let ?a = "max 0 (?rb - 2)"
  let ?b = "min (int (length (st_tokens st)) - 1) (st_pointer st)"
  have nth: "resetRange ?a ?b (st_tokens st) ! i =
           (if isWord (st_tokens st ! i) \<and> ?a \<le> int i \<and> int i \<le> st_pointer st
            then (st_tokens st ! i)\<lparr>status := Pending\<rparr> else st_tokens st ! i)"
    if "i < length (st_tokens st)" for i
    using nth_resetRange [of ?a ?b "st_tokens st" i] that by auto
  show ?thesis
    using nth
    by (cases "st_aligner st")
       (simp_all add: performAutoBacktrack_def rollbackTarget_spec [OF assms] Let_def
          writeTokens_def appSetPointer_def clear_def)
qed

lemma performAutoBacktrack_rollback_example:
  "[mkDecision 0 Correct, mkDecision 2 Incorrect] \<noteq> []
   \<and> list_all (\<lambda>d. 0 \<le> index d) [mkDecision 0 Correct, mkDecision 2 Incorrect]
   \<and> (\<exists>st'. performAutoBacktrack demoState [mkDecision 0 Correct, mkDecision 2 Incorrect] = Inr st'
           \<and> st_pointer st' = 0
           \<and> count (st_decisionBuffer st') = 0
           \<and> st_tokens st' ! 0 = wordToken 0 ''a''
           \<and> st_tokens st' ! 1 = sepToken 1 '' ''
           \<and> st_tokens st' ! 2 = wordToken 2 ''b'')"
proof -
  have h1: "[mkDecision 0 Correct, mkDecision 2 Incorrect] \<noteq> []" by simp
  have h2: "list_all (\<lambda>d. 0 \<le> index d) [mkDecision 0 Correct, mkDecision 2 Incorrect]"
    by (simp add: mkDecision_def)
  have t: "specRollbackTarget [mkDecision 0 Correct, mkDecision 2 Incorrect] = 0"
    by (simp add: specRollbackTarget_def mkDecision_def)
  from performAutoBacktrack_rollback [OF h1 h2, of demoState]
  obtain st' where
    r: "performAutoBacktrack demoState [mkDecision 0 Correct, mkDecision 2 Incorrect] = Inr st'"
    and p: "st_pointer st' = 0"
    and b: "count (st_decisionBuffer st') = 0"
    and n: "\<forall>i < length (st_tokens demoState).
                 st_tokens st' ! i =
                   (if isWord (st_tokens demoState ! i)
                       \<and> max 0 (0 - 2) \<le> int i \<and> int i \<le> st_pointer demoState
                    then (st_tokens demoState ! i)\<lparr>status := Pending\<rparr>
                    else st_tokens demoState ! i)"
    unfolding t by auto
  have "st_tokens st' ! 0 = wordToken 0 ''a''"
    using n [rule_format, of 0] by (simp add: demoState_def wordToken_def)
  moreover have "st_tokens st' ! 1 = sepToken 1 '' ''"
    using n [rule_format, of 1] by (simp add: demoState_def sepToken_def)
  moreover have "st_tokens st' ! 2 = wordToken 2 ''b''"
    using n [rule_format, of 2] by (simp add: demoState_def wordToken_def)
  ultimately show ?thesis using h1 h2 r p b by blast
qed


text \<open>
  C6. The rollback should target the most recent correct record of the inspected
  window, or the oldest record when none is correct. It does not when the window
  comes out of \<open>getRecent\<close> in slot order: with the window at 20 (the capacity) and 24
  decisions marked, the last of them three incorrect ones, \<open>getRecent(20)\<close> returns
  the records of tokens 40, 42, 44, 46, 8, ..., 38 in this order; the rollback fires
  and takes the last correct record of that list, token 38, where the most recent
  correct record is that of token 40. The session ends with the pointer at 38 and
  the word at 36 reset as well. And where \<open>getRecent\<close> returns nothing (9 records, the
  last 8 requested), the manual backtrack reads \<open>decisions[0].index\<close> of an empty
  list and throws.
\<close>

theorem wrapped_window_rollback_target:
  "map index (drop 4 longDecisions)
     = [8, 10, 12, 14, 16, 18, 20, 22, 24, 26, 28, 30, 32, 34, 36, 38, 40, 42, 44, 46]
   \<and> specRollbackTarget (drop 4 longDecisions) = 40
   \<and> map index (getRecent (pushAll (newDecisionBuffer 20) longDecisions) 20)
     = [40, 42, 44, 46, 8, 10, 12, 14, 16, 18, 20, 22, 24, 26, 28, 30, 32, 34, 36, 38]
   \<and> rollbackTarget (getRecent (pushAll (newDecisionBuffer 20) longDecisions) 20) = Inr 38
   \<and> summary (markAll longMarks (longSession 20))
     = Inr (38, Some 38, 0, replicate 18 Correct @ replicate 7 Pending)
   \<and> summary (thenManualBacktrack (markAll (replicate 9 Correct) (longSession 8)))
     = Inl TypeError"
  by code_simp

section \<open>Properties of the similarity\<close>

lemma editDistance_Nil2 [simp]: "editDistance xs [] = length xs"
  by (cases xs) simp_all

lemma editDistance_sym: "editDistance xs ys = editDistance ys xs"
proof (induction xs ys rule: editDistance.induct)
  case (3 x xs y ys)
  then show ?case by (simp add: min.commute min.left_commute eq_commute [of x y])
qed simp_all

lemma editDistance_refl [simp]: "editDistance xs xs = 0"
  by (induction xs) simp_all

lemma editDistance_le_max: "editDistance xs ys \<le> max (length xs) (length ys)"
proof (induction xs ys rule: editDistance.induct)
  case (3 x xs y ys)
  have "editDistance (x # xs) (y # ys) \<le> editDistance xs ys + 1"
    by (simp add: min.coboundedI1)
  with 3(1) show ?case by simp
qed simp_all

lemma editDistance_Cons2_le: "editDistance xs (y # ys) \<le> editDistance xs ys + 1"
  by (cases xs) (simp_all add: min.coboundedI2)

lemma editDistance_Cons1_le: "editDistance (x # xs) ys \<le> editDistance xs ys + 1"
  using editDistance_Cons2_le [of ys x xs] by (simp add: editDistance_sym)

lemma editDistance_drop1: "editDistance xs ys \<le> editDistance (x # xs) ys + 1"
proof (induction ys arbitrary: xs x)
  case Nil
  then show ?case by simp
next
  case (Cons y ys)
  have 1: "editDistance xs (y # ys) \<le> editDistance xs ys + 1"
    by (rule editDistance_Cons2_le)
  have 2: "editDistance xs ys \<le> editDistance (x # xs) ys + 1"
    by (rule Cons.IH)
  show ?case using 1 2 by (simp add: min_def)
qed

lemma editDistance_drop2: "editDistance xs ys \<le> editDistance xs (y # ys) + 1"
  using editDistance_drop1 [of ys xs y] by (simp add: editDistance_sym)

lemma editDistance_same_head: "editDistance (x # xs) (x # ys) = editDistance xs ys"
  using editDistance_drop1 [of xs ys x] editDistance_drop2 [of xs ys x]
  by (simp add: min_def)

lemma editDistance_diff_head:
  "x \<noteq> y \<Longrightarrow> editDistance (x # xs) (y # ys) =
     min (editDistance xs ys + 1) (min (editDistance xs (y # ys) + 1) (editDistance (x # xs) ys + 1))"
  by simp

lemma prefixDistance_0_left: "j \<le> length b \<Longrightarrow> prefixDistance a b 0 j = j"
  by (simp add: prefixDistance_def)

lemma prefixDistance_0_right: "i \<le> length a \<Longrightarrow> prefixDistance a b i 0 = i"
  by (simp add: prefixDistance_def)

lemma prefixDistance_Suc_eq:
  assumes "i < length a" "j < length b" "a ! i = b ! j"
  shows "prefixDistance a b (Suc i) (Suc j) = prefixDistance a b i j"
  using assms
  by (simp add: prefixDistance_def take_Suc_conv_app_nth editDistance_same_head
           del: editDistance.simps)

lemma prefixDistance_Suc_neq:
  assumes "i < length a" "j < length b" "a ! i \<noteq> b ! j"
  shows "prefixDistance a b (Suc i) (Suc j) =
           min (prefixDistance a b i j + 1)
               (min (prefixDistance a b i (Suc j) + 1) (prefixDistance a b (Suc i) j + 1))"
  using assms by (simp add: prefixDistance_def take_Suc_conv_app_nth)

text \<open>The inner loop, after the cells 1..j of row i + 1 have been written.\<close>

lemma levInner_loop:
  assumes i: "i < length a" and j: "j \<le> length b"
    and len: "length dp = Suc (length b)"
    and row: "\<forall>k \<le> length b. dp ! k = prefixDistance a b i k"
  shows "fold (levInner (a ! i) b) [1..<Suc j] (dp[0 := Suc i], dp ! 0) = (dp', prev)
         \<Longrightarrow> length dp' = Suc (length b)
             \<and> (\<forall>k \<le> length b. dp' ! k = (if k \<le> j then prefixDistance a b (Suc i) k
                                            else prefixDistance a b i k))
             \<and> prev = prefixDistance a b i j"
  using j
proof (induction j arbitrary: dp' prev)
  case 0
  then show ?case
    using len row i by (auto simp: prefixDistance_0_right nth_list_update)
next
  case (Suc j)
  obtain dp1 prev1 where f: "fold (levInner (a ! i) b) [1..<Suc j] (dp[0 := Suc i], dp ! 0) = (dp1, prev1)"
    by (cases "fold (levInner (a ! i) b) [1..<Suc j] (dp[0 := Suc i], dp ! 0)") auto
  from Suc.prems have j: "j < length b" by simp
  from Suc.IH [OF f] j
  have l1: "length dp1 = Suc (length b)"
    and r1: "\<And>k. k \<le> length b \<Longrightarrow> dp1 ! k = (if k \<le> j then prefixDistance a b (Suc i) k
                                            else prefixDistance a b i k)"
    and p1: "prev1 = prefixDistance a b i j"
    by simp_all
  have step: "(dp', prev) = levInner (a ! i) b (Suc j) (dp1, prev1)"
    using Suc.prems(1) f by simp
  have dj: "dp1 ! j = prefixDistance a b (Suc i) j" using r1 [of j] j by simp
  have dsj: "dp1 ! Suc j = prefixDistance a b i (Suc j)" using r1 [of "Suc j"] j by simp
  have prev: "prev = prefixDistance a b i (Suc j)"
    using step dsj by (simp add: levInner_def Let_def)
  have dp': "dp' = dp1[Suc j := prefixDistance a b (Suc i) (Suc j)]"
  proof (cases "a ! i = b ! j")
    case True
    then show ?thesis
      using step p1 prefixDistance_Suc_eq [OF i j True] by (simp add: levInner_def Let_def)
  next
    case False
    then show ?thesis
      using step p1 dj dsj prefixDistance_Suc_neq [OF i j False]
      by (simp add: levInner_def Let_def)
  qed
  have "dp' ! k = (if k \<le> Suc j then prefixDistance a b (Suc i) k else prefixDistance a b i k)"
    if k: "k \<le> length b" for k
  proof (cases "k = Suc j")
    case True
    then show ?thesis using l1 k by (simp add: dp')
  next
    case False
    then have "dp' ! k = dp1 ! k" by (simp add: dp')
    also have "\<dots> = (if k \<le> j then prefixDistance a b (Suc i) k else prefixDistance a b i k)"
      using r1 [OF k] .
    finally show ?thesis using False by (simp add: le_Suc_eq)
  qed
  then show ?case
    using l1 prev by (simp add: dp')
qed

lemma levRow_correct:
  assumes i: "i < length a"
    and len: "length dp = Suc (length b)"
    and row: "\<forall>k \<le> length b. dp ! k = prefixDistance a b i k"
  shows "length (levRow a b (Suc i) dp) = Suc (length b)
         \<and> (\<forall>k \<le> length b. levRow a b (Suc i) dp ! k = prefixDistance a b (Suc i) k)"
proof -
  obtain dp' prev where f:
    "fold (levInner (a ! i) b) [1..<Suc (length b)] (dp[0 := Suc i], dp ! 0) = (dp', prev)"
    by (cases "fold (levInner (a ! i) b) [1..<Suc (length b)] (dp[0 := Suc i], dp ! 0)") auto
  from levInner_loop [OF i _ len row f] have
    "length dp' = Suc (length b)"
    "\<forall>k \<le> length b. dp' ! k = prefixDistance a b (Suc i) k"
    by simp_all
  moreover have "levRow a b (Suc i) dp = dp'"
    using f by (simp add: levRow_def Let_def)
  ultimately show ?thesis by simp
qed

lemma levRows_correct:
  "i \<le> length a \<Longrightarrow>
     length (fold (levRow a b) [1..<Suc i] [0..<Suc (length b)]) = Suc (length b)
     \<and> (\<forall>k \<le> length b. fold (levRow a b) [1..<Suc i] [0..<Suc (length b)] ! k
                              = prefixDistance a b i k)"
proof (induction i)
  case 0
  show ?case
  proof (intro conjI allI impI)
    fix k assume "k \<le> length b"
    then have "[0..<Suc (length b)] ! k = k"
      using nth_upt [of 0 k "Suc (length b)"] by simp
    then show "fold (levRow a b) [1..<Suc 0] [0..<Suc (length b)] ! k = prefixDistance a b 0 k"
      using \<open>k \<le> length b\<close> by (simp add: prefixDistance_0_left)
  qed simp
next
  case (Suc i)
  then have i: "i < length a" by simp
  from Suc.IH i have
    len: "length (fold (levRow a b) [1..<Suc i] [0..<Suc (length b)]) = Suc (length b)"
    and row: "\<forall>k \<le> length b. fold (levRow a b) [1..<Suc i] [0..<Suc (length b)] ! k
                              = prefixDistance a b i k"
    by simp_all
  have "fold (levRow a b) [1..<Suc (Suc i)] [0..<Suc (length b)]
          = levRow a b (Suc i) (fold (levRow a b) [1..<Suc i] [0..<Suc (length b)])"
    by simp
  then show ?case
    using levRow_correct [OF i len row] by simp
qed

lemma levenshtein_rev: "levenshtein a b = editDistance (rev a) (rev b)"
proof (cases "a = [] \<or> b = []")
  case True
  then show ?thesis by (auto simp: levenshtein_def Let_def)
next
  case False
  then have "levenshtein a b = fold (levRow a b) [1..<Suc (length a)] [0..<Suc (length b)] ! length b"
    by (simp add: levenshtein_def Let_def)
  also have "\<dots> = prefixDistance a b (length a) (length b)"
    using levRows_correct [of "length a" a b] by simp
  finally show ?thesis by (simp add: prefixDistance_def)
qed

lemma min_nine:
  fixes t1 :: nat
  shows "min (min (t1 + d) (min (t2 + 1) (t3 + 1)) + d')
          (min (min (t4 + d) (min (t5 + 1) (t6 + 1)) + 1) (min (t7 + d) (min (t8 + 1) (t9 + 1)) + 1))
       = min (min (t1 + d') (min (t4 + 1) (t7 + 1)) + d)
          (min (min (t2 + d') (min (t5 + 1) (t8 + 1)) + 1) (min (t3 + d') (min (t6 + 1) (t9 + 1)) + 1))"
  by (simp only: min_add_distrib_left min_add_distrib_right
        min.assoc min.commute min.left_commute add.assoc add.commute add.left_commute)

lemma min_five:
  fixes A :: nat
  shows "min (A + 1 + d') (min (A + 3) (min (A + d) (min (A + 2) (E + 1)) + 1))
       = min (A + 1 + d) (min (A + 1 + 2) (min (A + d') (min (A + 2) (E + 1)) + 1))"
  by (simp add: min_add_distrib_left min_add_distrib_right
        min.assoc min.commute min.left_commute add.assoc add.commute add.left_commute)



lemma editDistance_snoc_Nil1:
  "editDistance [x] (ys @ [y]) =
     min (length ys + (if x = y then 0 else 1)) (min (length ys + 2) (editDistance [x] ys + 1))"
proof (induction ys)
  case Nil
  then show ?case by simp
next
  case (Cons y' ys)
  define E where "E = editDistance [x] ys"
  define A where "A = length ys"
  define d where "d = (if x = y then 0 else 1::nat)"
  define d' where "d' = (if x = y' then 0 else 1::nat)"
  have IH: "editDistance [x] (ys @ [y]) = min (A + d) (min (A + 2) (E + 1))"
    using Cons.IH by (simp add: E_def A_def d_def)
  have L: "editDistance [x] ((y' # ys) @ [y]) =
             min (A + 1 + d') (min (A + 3) (editDistance [x] (ys @ [y]) + 1))"
    by (simp add: A_def d'_def)
  have R: "editDistance [x] (y' # ys) = min (A + d') (min (A + 2) (E + 1))"
    by (simp add: A_def d'_def E_def)
  have "editDistance [x] ((y' # ys) @ [y]) =
          min (A + 1 + d) (min (A + 1 + 2) (editDistance [x] (y' # ys) + 1))"
    unfolding L IH R by (rule min_five)
  then show ?case by (simp add: A_def d_def)
qed

lemma editDistance_snoc_Nil2:
  "editDistance (xs @ [x]) [y] =
     min (length xs + (if x = y then 0 else 1)) (min (editDistance xs [y] + 1) (length xs + 2))"
  using editDistance_snoc_Nil1 [of y xs x]
  by (simp add: editDistance_sym [of _ "[y]"] eq_commute [of x y] min.commute)

lemma editDistance_snoc:
  "editDistance (xs @ [x]) (ys @ [y]) =
     min (editDistance xs ys + (if x = y then 0 else 1))
         (min (editDistance xs (ys @ [y]) + 1) (editDistance (xs @ [x]) ys + 1))"
proof (induction xs ys rule: editDistance.induct)
  case (1 ys)
  show ?case using editDistance_snoc_Nil1 [of x ys y] by simp
next
  case (2 x' xs')
  show ?case using editDistance_snoc_Nil2 [of "x' # xs'" x y] by simp
next
  case (3 x' xs y' ys)
  define d where "d = (if x = y then 0 else 1::nat)"
  define d' where "d' = (if x' = y' then 0 else 1::nat)"
  define t1 where "t1 = editDistance xs ys"
  define t2 where "t2 = editDistance xs (ys @ [y])"
  define t3 where "t3 = editDistance (xs @ [x]) ys"
  define t4 where "t4 = editDistance xs (y' # ys)"
  define t5 where "t5 = editDistance xs (y' # ys @ [y])"
  define t6 where "t6 = editDistance (xs @ [x]) (y' # ys)"
  define t7 where "t7 = editDistance (x' # xs) ys"
  define t8 where "t8 = editDistance (x' # xs) (ys @ [y])"
  define t9 where "t9 = editDistance (x' # xs @ [x]) ys"
  have IH1: "editDistance (xs @ [x]) (ys @ [y]) = min (t1 + d) (min (t2 + 1) (t3 + 1))"
    using 3(1) by (simp add: d_def t1_def t2_def t3_def)
  have IH2: "editDistance (xs @ [x]) (y' # ys @ [y]) = min (t4 + d) (min (t5 + 1) (t6 + 1))"
    using 3(2) by (simp add: d_def t4_def t5_def t6_def)
  have IH3: "editDistance (x' # xs @ [x]) (ys @ [y]) = min (t7 + d) (min (t8 + 1) (t9 + 1))"
    using 3(3) by (simp add: d_def t7_def t8_def t9_def)
  have L: "editDistance ((x' # xs) @ [x]) ((y' # ys) @ [y]) =
             min (editDistance (xs @ [x]) (ys @ [y]) + d')
                 (min (editDistance (xs @ [x]) (y' # ys @ [y]) + 1)
                      (editDistance (x' # xs @ [x]) (ys @ [y]) + 1))"
    by (simp add: d'_def)
  have F1: "editDistance (x' # xs) (y' # ys) = min (t1 + d') (min (t4 + 1) (t7 + 1))"
    by (simp add: d'_def t1_def t4_def t7_def)
  have F2: "editDistance (x' # xs) ((y' # ys) @ [y]) = min (t2 + d') (min (t5 + 1) (t8 + 1))"
    by (simp add: d'_def t2_def t5_def t8_def)
  have F3: "editDistance ((x' # xs) @ [x]) (y' # ys) = min (t3 + d') (min (t6 + 1) (t9 + 1))"
    by (simp add: d'_def t3_def t6_def t9_def)
  have "editDistance ((x' # xs) @ [x]) ((y' # ys) @ [y]) =
          min (editDistance (x' # xs) (y' # ys) + d)
              (min (editDistance (x' # xs) ((y' # ys) @ [y]) + 1)
                   (editDistance ((x' # xs) @ [x]) (y' # ys) + 1))"
    unfolding L IH1 IH2 IH3 F1 F2 F3 by (rule min_nine)
  then show ?case by (simp only: d_def)
qed

lemma editDistance_rev: "editDistance (rev xs) (rev ys) = editDistance xs ys"
proof (induction xs ys rule: editDistance.induct)
  case (3 x xs y ys)
  have "editDistance (rev (x # xs)) (rev (y # ys)) =
          min (editDistance (rev xs) (rev ys) + (if x = y then 0 else 1))
              (min (editDistance (rev xs) (rev (y # ys)) + 1)
                   (editDistance (rev (x # xs)) (rev ys) + 1))"
    using editDistance_snoc [of "rev xs" x "rev ys" y] by simp
  then show ?case
    unfolding 3 by simp
qed simp_all

lemma levenshtein_editDistance: "levenshtein a b = editDistance a b"
  by (simp add: levenshtein_rev editDistance_rev)

text \<open>
  C7. For all strings \<open>a\<close> and \<open>b\<close>, the similarity lies in [0, 1], the similarity of
  a string with itself is 1, the similarity of two empty strings is 1, the similarity
  is symmetric, and it is 1 minus the Levenshtein distance divided by the larger of
  the two lengths (by 1 when both strings are empty).
\<close>

theorem similarity_bounds:
  "0 \<le> similarity a b \<and> similarity a b \<le> 1
   \<and> similarity a a = 1
   \<and> similarity ([] :: 'a list) [] = 1
   \<and> similarity a b = similarity b a
   \<and> similarity a b = 1 - real (editDistance a b) / real (max (max (length a) (length b)) 1)"
proof -
  have le: "editDistance a b \<le> maxLen a b"
    using editDistance_le_max [of a b] by (simp add: maxLen_def Let_def)
  have pos: "0 < maxLen a b" by (auto simp: maxLen_def Let_def less_max_iff_disj)
  have "real (editDistance a b) / real (maxLen a b) \<le> 1"
    using le pos by simp
  moreover have "maxLen a b = maxLen b a" by (simp add: maxLen_def max.commute)
  moreover have "maxLen a b = max (max (length a) (length b)) 1"
    by (simp add: maxLen_def Let_def max_def)
  ultimately show ?thesis
    by (simp add: similarity_def levenshtein_editDistance editDistance_sym [of a b])
qed

text \<open>
  C8. For every spoken word, every pair of spoken phonetic codes and every reference
  token, the combined similarity is at least the textual similarity of the same
  pair: the result is the maximum of the textual similarity and the blend. With
  phonetic matching off the combined similarity is the textual one, so turning it on
  can only raise the score.
\<close>

theorem combinedSimilarity_ge_text:
  "similarityWith lib spokenWord (norm textToken)
     \<le> combinedSimilarity lib A spokenWord spokenPhonetic textToken
   \<and> combinedSimilarity lib (A\<lparr>phoneticEnabled := False\<rparr>) spokenWord spokenPhonetic textToken
       = similarityWith lib spokenWord (norm textToken)
   \<and> combinedSimilarity lib (A\<lparr>phoneticEnabled := False\<rparr>) spokenWord spokenPhonetic textToken
       \<le> combinedSimilarity lib (A\<lparr>phoneticEnabled := True\<rparr>) spokenWord spokenPhonetic textToken"
  by (simp add: combinedSimilarity_def Let_def)


section \<open>Properties of word normalisation\<close>

text \<open>
  On a word without code points from U+00B4 on (every ASCII word), the second
  replacement removes no letter and no number, and a second application changes
  nothing.
\<close>

lemma toLowerChar_idem: "toLowerChar (toLowerChar c) = toLowerChar c"
proof -
  have n: "(of_char c :: nat) < 256" by (rule nat_of_char_less_256)
  show ?thesis
    using n by (auto simp: toLowerChar_def Let_def)
qed

lemma toLowerChar_plain: "(of_char c :: nat) < 180 \<Longrightarrow> (of_char (toLowerChar c) :: nat) < 180"
  by (auto simp: toLowerChar_def Let_def)

lemma plain_not_collapsible:
  "(of_char c :: nat) < 180 \<Longrightarrow> \<not> edgePunct c \<Longrightarrow> \<not> collapsible c"
  by (auto simp: edgePunct_def collapsible_def isLetter_def isNumber_def Let_def)

lemma stripEdges_subset: "set (stripEdges w) \<subseteq> set w"
proof
  fix c assume "c \<in> set (stripEdges w)"
  then have "c \<in> set (dropWhile edgePunct (rev (dropWhile edgePunct w)))"
    by (simp add: stripEdges_def)
  then have "c \<in> set (rev (dropWhile edgePunct w))" by (rule set_dropWhileD)
  then have "c \<in> set (dropWhile edgePunct w)" by simp
  then show "c \<in> set w" by (rule set_dropWhileD)
qed

lemma last_dropWhile_nonempty:
  "dropWhile P xs \<noteq> [] \<Longrightarrow> last (dropWhile P xs) = last xs"
  by (induction xs) (auto split: if_splits)

lemma last_filter_kept: "xs \<noteq> [] \<Longrightarrow> P (last xs) \<Longrightarrow> last (filter P xs) = last xs"
  by (induction xs rule: rev_induct) simp_all

lemma stripEdges_hd: "stripEdges w \<noteq> [] \<Longrightarrow> \<not> edgePunct (hd (stripEdges w))"
proof -
  assume ne: "stripEdges w \<noteq> []"
  let ?d = "dropWhile edgePunct w"
  let ?e = "dropWhile edgePunct (rev ?d)"
  from ne have e: "?e \<noteq> []" by (simp add: stripEdges_def)
  have d: "?d \<noteq> []"
  proof
    assume a: "?d = []"
    have "?e = []" unfolding a by simp
    with e show False by simp
  qed
  have "hd (stripEdges w) = last ?e" using e by (simp add: stripEdges_def hd_rev)
  also have "\<dots> = last (rev ?d)" using e by (simp add: last_dropWhile_nonempty)
  also have "\<dots> = hd ?d" using d by (simp add: last_rev)
  finally show ?thesis using hd_dropWhile [OF d] by simp
qed

lemma stripEdges_last: "stripEdges w \<noteq> [] \<Longrightarrow> \<not> edgePunct (last (stripEdges w))"
proof -
  assume ne: "stripEdges w \<noteq> []"
  let ?e = "dropWhile edgePunct (rev (dropWhile edgePunct w))"
  from ne have e: "?e \<noteq> []" by (simp add: stripEdges_def)
  have "last (stripEdges w) = hd ?e" using e by (simp add: stripEdges_def last_rev)
  then show ?thesis using hd_dropWhile [OF e] by simp
qed

lemma stripEdges_fixed:
  "w \<noteq> [] \<Longrightarrow> \<not> edgePunct (hd w) \<Longrightarrow> \<not> edgePunct (last w) \<Longrightarrow> stripEdges w = w"
proof -
  assume ne: "w \<noteq> []" and h: "\<not> edgePunct (hd w)" and l: "\<not> edgePunct (last w)"
  from ne h have 1: "dropWhile edgePunct w = w" by (cases w) simp_all
  from ne l have 2: "dropWhile edgePunct (rev w) = rev w"
    by (cases "rev w") (simp_all add: last_rev [symmetric] hd_rev)
  show ?thesis by (simp add: stripEdges_def 1 2)
qed

lemma normalizeWord_idempotent_plain:
  assumes "\<forall>c \<in> set w. (of_char c :: nat) < 180"
  shows "normalizeWord (normalizeWord w) = normalizeWord w"
proof (cases "normalizeWord w = []")
  case True
  then show ?thesis by (simp add: normalizeWord_def)
next
  case False
  then have w: "w \<noteq> []" by (auto simp: normalizeWord_def)
  let ?l = "toLowerCase w"
  let ?s = "stripEdges ?l"
  let ?t = "filter (\<lambda>c. \<not> collapsible c) ?s"
  have t: "normalizeWord w = ?t" using w by (simp add: normalizeWord_def Let_def)
  with False have tne: "?t \<noteq> []" by simp
  then have sne: "?s \<noteq> []" by auto
  have plain: "(of_char c :: nat) < 180" if "c \<in> set ?s" for c
  proof -
    from that stripEdges_subset have "c \<in> set ?l" by blast
    then show ?thesis using assms toLowerChar_plain by (auto simp: toLowerCase_def)
  qed
  have keep_hd: "\<not> collapsible (hd ?s)"
    using plain [of "hd ?s"] stripEdges_hd [OF sne] sne plain_not_collapsible by simp
  have keep_last: "\<not> collapsible (last ?s)"
    using plain [of "last ?s"] stripEdges_last [OF sne] sne plain_not_collapsible by simp
  have hd_t: "hd ?t = hd ?s" using keep_hd sne by (cases ?s) simp_all
  have last_t: "last ?t = last ?s" using keep_last sne by (simp add: last_filter_kept)
  have lower: "toLowerCase ?t = ?t"
  proof -
    have "toLowerChar c = c" if "c \<in> set ?t" for c
    proof -
      from that have "c \<in> set ?s" by simp
      with stripEdges_subset have "c \<in> set ?l" by blast
      then show ?thesis by (auto simp: toLowerCase_def toLowerChar_idem)
    qed
    then have "map toLowerChar ?t = ?t" by (intro map_idI) simp
    then show ?thesis by (simp only: toLowerCase_def)
  qed
  have strip: "stripEdges ?t = ?t"
    using stripEdges_fixed [OF tne] stripEdges_hd [OF sne] stripEdges_last [OF sne]
    by (simp add: hd_t last_t)
  have "normalizeWord ?t = filter (\<lambda>c. \<not> collapsible c) (stripEdges (toLowerCase ?t))"
    using tne by (simp add: normalizeWord_def Let_def)
  also have "\<dots> = ?t" by (simp only: lower strip) simp
  finally show ?thesis by (simp only: t)
qed

text \<open>
  C10. \<open>normalizeWord\<close> should be idempotent. It is not: the character class of the
  second replacement holds the range from U+00B4 to U+2013, so it removes letters,
  and a letter removed at the edge of the word exposes punctuation that only a second
  application strips. The word "a-coup" with a grave accent on the first letter
  (U+00E0) normalises to "-coup", and "-coup" normalises to "coup". (Where the class
  removes no letter, the function is idempotent: lemma
  \<open>normalizeWord_idempotent_plain\<close>.)
\<close>

theorem normalizeWord_not_idempotent:
  "normalizeWord [CHR 0xE0, CHR ''-'', CHR ''c'', CHR ''o'', CHR ''u'', CHR ''p''] = ''-coup''
   \<and> normalizeWord ''-coup'' = ''coup''"
  by (simp add: normalizeWord_def toLowerCase_def toLowerChar_def stripEdges_def edgePunct_def
        isLetter_def isNumber_def collapsible_def Let_def)

section \<open>Properties of the transitions\<close>

text \<open>
  C4 (as amended). For every hypothesis, every candidate reference token and every
  spoken word, the transition list holds exactly one insertion successor; its cost is
  the hypothesis's cost plus 0.1 when the spoken word is in the closed filler set
  \<open>{"uh", "um", "er", "ah", "eh", "mm", "hmm"}\<close> and plus 0.3 otherwise, its spoken
  position is the hypothesis's plus one, and its text position is the index of the
  candidate token (the hypothesis's own text position only when the candidate stands
  at that position).
\<close>

theorem generateTransitions_insertion:
  "insertionSuccessors (generateTransitions lib A state tPos textToken spokenWord spokenPhonetic)
     = [\<lparr>textPos = tPos, spokenPos = spokenPos state + 1,
          cost = cost state + (if spokenWord \<in> FILLERS then 0.1 else 0.3),
          path = path state @ [Insertion spokenWord (if spokenWord \<in> FILLERS then 0.1 else 0.3)]\<rparr>]
     \<and> FILLERS = {''uh'', ''um'', ''er'', ''ah'', ''eh'', ''mm'', ''hmm''}"
  by (simp add: insertionSuccessors_def generateTransitions_def Let_def FILLERS_def)

text \<open>
  C4 as stated fails for a candidate further along the window: for the hypothesis at
  text position 0 and the candidate word at index 2, the insertion successor stands
  at text position 2.
\<close>

theorem insertion_moves_textPos_counterexample:
  "getTextTokensInWindow (newAlignerPlain demoTokens) 0
      = Inr [(0, wordToken 0 ''a''), (2, wordToken 2 ''b'')]
   \<and> beam (newAlignerPlain demoTokens) = [\<lparr>textPos = 0, spokenPos = 0, cost = 0, path = []\<rparr>]
   \<and> map textPos (insertionSuccessors (generateTransitions plainLibrary (newAlignerPlain demoTokens)
          \<lparr>textPos = 0, spokenPos = 0, cost = 0, path = []\<rparr> 2 (wordToken 2 ''b'') ''um'' ([], [])))
      = [2]"
  by (simp add: getTextTokensInWindow_def windowLoop.simps newAlignerPlain_def newAligner_def resetBeam_def
        demoTokens_def wordToken_def sepToken_def firstWordIndex_def
        insertionSuccessors_def generateTransitions_def Let_def)


section \<open>Properties of the alignment rounds\<close>

lemma windowLoop_stop:
  "\<not> (pos < int (length ts) \<and> cnt < ws) \<Longrightarrow> windowLoop ts ws pos cnt acc = Inr acc"
  by (subst windowLoop.simps) auto

lemma windowLoop_word:
  "pos < int (length ts) \<and> cnt < ws \<Longrightarrow> \<not> pos < 0 \<Longrightarrow> isWord (ts ! nat pos)
     \<Longrightarrow> windowLoop ts ws pos cnt acc
           = windowLoop ts ws (pos + 1) (cnt + 1) (acc @ [(pos, ts ! nat pos)])"
  by (subst windowLoop.simps) auto

lemma windowLoop_skip:
  "pos < int (length ts) \<and> cnt < ws \<Longrightarrow> \<not> pos < 0 \<Longrightarrow> \<not> isWord (ts ! nat pos)
     \<Longrightarrow> windowLoop ts ws pos cnt acc = windowLoop ts ws (pos + 1) cnt acc"
  by (subst windowLoop.simps) auto

lemma windowLoop_throw:
  "pos < int (length ts) \<and> cnt < ws \<Longrightarrow> pos < 0 \<Longrightarrow> windowLoop ts ws pos cnt acc = Inl TypeError"
  by (subst windowLoop.simps) auto

lemma windowLoop_indices:
  "windowLoop ts ws pos cnt acc = Inr r \<Longrightarrow> p \<in> set r \<Longrightarrow> p \<in> set acc \<or> pos \<le> fst p"
proof (induction ts ws pos cnt acc rule: windowLoop.induct)
  case (1 ts ws pos cnt acc)
  show ?case
  proof (cases "pos < int (length ts) \<and> cnt < ws")
    case False
    with "1.prems" show ?thesis by (simp add: windowLoop_stop)
  next
    case True
    note cond = this
    show ?thesis
    proof (cases "pos < 0")
      case True
      with cond "1.prems" show ?thesis by (simp add: windowLoop_throw)
    next
      case False
      note nonneg = this
      show ?thesis
      proof (cases "isWord (ts ! nat pos)")
        case True
        with cond nonneg "1.prems"(1)
        have "windowLoop ts ws (pos + 1) (cnt + 1) (acc @ [(pos, ts ! nat pos)]) = Inr r"
          by (simp add: windowLoop_word)
        from "1.IH"(1) [OF cond nonneg True this "1.prems"(2)]
        show ?thesis by auto
      next
        case False
        with cond nonneg "1.prems"(1)
        have "windowLoop ts ws (pos + 1) cnt acc = Inr r"
          by (simp add: windowLoop_skip)
        from "1.IH"(2) [OF cond nonneg False this "1.prems"(2)]
        show ?thesis by auto
      qed
    qed
  qed
qed

lemma windowLoop_total:
  "0 \<le> pos \<Longrightarrow> \<exists>r. windowLoop ts ws pos cnt acc = Inr r"
proof (induction ts ws pos cnt acc rule: windowLoop.induct)
  case (1 ts ws pos cnt acc)
  show ?case
  proof (cases "pos < int (length ts) \<and> cnt < ws")
    case False
    then show ?thesis by (simp add: windowLoop_stop)
  next
    case True
    note cond = this
    have nonneg: "\<not> pos < 0" using "1.prems" by simp
    have next_ok: "0 \<le> pos + 1" using "1.prems" by simp
    show ?thesis
    proof (cases "isWord (ts ! nat pos)")
      case True
      from "1.IH"(1) [OF cond nonneg True next_ok]
      show ?thesis by (simp add: windowLoop_word [OF cond nonneg True])
    next
      case False
      from "1.IH"(2) [OF cond nonneg False next_ok]
      show ?thesis by (simp add: windowLoop_skip [OF cond nonneg False])
    qed
  qed
qed

lemma windowLoop_past_end:
  "int (length ts) \<le> pos \<Longrightarrow> windowLoop ts ws pos cnt acc = Inr acc"
  by (simp add: windowLoop_stop)

lemma getTextTokensInWindow_indices:
  "getTextTokensInWindow A startPos = Inr r \<Longrightarrow> p \<in> set r \<Longrightarrow> startPos \<le> fst p"
  using windowLoop_indices [of "tokens A" "windowSize A" startPos 0 "[]" r p]
  by (simp add: getTextTokensInWindow_def)

lemma generateTransitions_textPos:
  "s' \<in> set (generateTransitions lib A s tPos tok w sp) \<Longrightarrow> tPos \<le> textPos s'"
  by (auto simp: generateTransitions_def Let_def split: if_splits)

lemma expandStates_textPos:
  "expandStates lib A w sp ss = Inr r \<Longrightarrow> s' \<in> set r
     \<Longrightarrow> \<exists>s \<in> set ss. textPos s \<le> textPos s'"
proof (induction ss arbitrary: r)
  case Nil
  then show ?case by simp
next
  case (Cons s ss)
  from Cons.prems(1) obtain textTokens others where
    w: "getTextTokensInWindow A (textPos s) = Inr textTokens"
    and o: "expandStates lib A w sp ss = Inr others"
    and r: "r = concat (map (\<lambda>(tPos, textToken). generateTransitions lib A s tPos textToken w sp)
                      textTokens) @ others"
    by (auto split: sum.splits)
  from Cons.prems(2) r consider
    (here) p where "p \<in> set textTokens"
       "s' \<in> set (generateTransitions lib A s (fst p) (snd p) w sp)"
    | (there) "s' \<in> set others"
    by (auto simp: case_prod_beta)
  then show ?case
  proof cases
    case here
    from getTextTokensInWindow_indices [OF w here(1)] generateTransitions_textPos [OF here(2)]
    show ?thesis by auto
  next
    case there
    from Cons.IH [OF o there] show ?thesis by auto
  qed
qed

lemma expandStates_total:
  "list_all (\<lambda>s. 0 \<le> textPos s) ss \<Longrightarrow> \<exists>r. expandStates lib A w sp ss = Inr r"
proof (induction ss)
  case Nil
  then show ?case by simp
next
  case (Cons s ss)
  then obtain others where o: "expandStates lib A w sp ss = Inr others" by auto
  from Cons.prems have "0 \<le> textPos s" by simp
  from windowLoop_total [OF this, of "tokens A" "windowSize A" 0 "[]"]
  obtain textTokens where "getTextTokensInWindow A (textPos s) = Inr textTokens"
    by (auto simp: getTextTokensInWindow_def)
  with o show ?case by simp
qed

lemma expandStates_past_end:
  "list_all (\<lambda>s. int (length (tokens A)) \<le> textPos s) ss \<Longrightarrow> expandStates lib A w sp ss = Inr []"
  by (induction ss) (simp_all add: getTextTokensInWindow_def windowLoop_past_end)

lemma set_pruneBeam: "set (pruneBeam A states) \<subseteq> set states"
  using set_take_subset [of "beamWidth A" "sort_key cost states"] by (simp add: pruneBeam_def)

lemma expandBeam_frame:
  assumes "expandBeam lib A w = Inr A'"
  shows "pointer A' = pointer A" and "tokens A' = tokens A"
    and "spokenBuffer A' = spokenBuffer A"
  using assms by (auto simp: expandBeam_def Let_def split: sum.splits)

lemma expandBeam_beamAhead:
  assumes "expandBeam lib A w = Inr A'" and "beamAhead A"
  shows "beamAhead A'"
proof -
  from assms(1) obtain sp newBeam where
    e: "expandStates lib A w sp (beam A) = Inr newBeam"
    and A': "A' = A\<lparr>beam := pruneBeam A newBeam\<rparr>"
    by (auto simp: expandBeam_def Let_def split: sum.splits)
  have "pointer A \<le> textPos s'" if "s' \<in> set (pruneBeam A newBeam)" for s'
  proof -
    from that set_pruneBeam have "s' \<in> set newBeam" by blast
    from expandStates_textPos [OF e this] obtain s where "s \<in> set (beam A)" "textPos s \<le> textPos s'"
      by auto
    with assms(2) show ?thesis by (auto simp: beamAhead_def list_all_iff)
  qed
  then show ?thesis by (simp add: A' beamAhead_def list_all_iff)
qed

lemma expandBeam_total:
  assumes "beamAhead A" and "0 \<le> pointer A"
  shows "\<exists>A'. expandBeam lib A w = Inr A'"
proof -
  from assms have nonneg: "list_all (\<lambda>s. 0 \<le> textPos s) (beam A)"
    by (auto simp: beamAhead_def list_all_iff)
  define sp where "sp = (if phoneticEnabled A
             then (case doubleMetaphone lib w of Some codes \<Rightarrow> codes | None \<Rightarrow> ([], []))
             else ([], []))"
  from expandStates_total [OF nonneg, of lib A w sp]
  obtain r where "expandStates lib A w sp (beam A) = Inr r" by auto
  then have "expandBeam lib A w = Inr (A\<lparr>beam := pruneBeam A r\<rparr>)"
    unfolding expandBeam_def Let_def sp_def [symmetric] by simp
  then show ?thesis by simp
qed

lemma expandAll_frame:
  "expandAll lib A ws = Inr A' \<Longrightarrow> pointer A' = pointer A \<and> tokens A' = tokens A"
proof (induction ws arbitrary: A)
  case Nil
  then show ?case by simp
next
  case (Cons w ws)
  then obtain A1 where 1: "expandBeam lib A w = Inr A1" and 2: "expandAll lib A1 ws = Inr A'"
    by (auto split: sum.splits)
  from Cons.IH [OF 2] expandBeam_frame [OF 1] show ?case by simp
qed

lemma expandAll_beamAhead:
  "expandAll lib A ws = Inr A' \<Longrightarrow> beamAhead A \<Longrightarrow> beamAhead A'"
proof (induction ws arbitrary: A)
  case Nil
  then show ?case by simp
next
  case (Cons w ws)
  then obtain A1 where 1: "expandBeam lib A w = Inr A1" and 2: "expandAll lib A1 ws = Inr A'"
    by (auto split: sum.splits)
  from Cons.IH [OF 2 expandBeam_beamAhead [OF 1 Cons.prems(2)]] show ?case .
qed

lemma expandAll_total:
  "beamAhead A \<Longrightarrow> 0 \<le> pointer A \<Longrightarrow> \<exists>A'. expandAll lib A ws = Inr A'"
proof (induction ws arbitrary: A)
  case Nil
  then show ?case by simp
next
  case (Cons w ws)
  from expandBeam_total [OF Cons.prems] obtain A1 where 1: "expandBeam lib A w = Inr A1" by auto
  from expandBeam_beamAhead [OF 1 Cons.prems(1)] expandBeam_frame(1) [OF 1] Cons.prems(2)
  have "beamAhead A1" "0 \<le> pointer A1" by simp_all
  from Cons.IH [OF this] 1 show ?case by simp
qed

lemma bestOf_foldl_mem:
  "foldl (\<lambda>best current. if cost current < cost best then current else best) s ss \<in> set (s # ss)"
proof (induction ss arbitrary: s)
  case Nil
  show ?case by simp
next
  case (Cons x ss)
  have "foldl (\<lambda>best current. if cost current < cost best then current else best)
          (if cost x < cost s then x else s) ss \<in> set ((if cost x < cost s then x else s) # ss)"
    by (rule Cons.IH)
  then show ?case by (cases "cost x < cost s") auto
qed

lemma bestOf_mem: "states \<noteq> [] \<Longrightarrow> bestOf states \<in> set states"
  using bestOf_foldl_mem [of "hd states" "tl states"] by (simp add: bestOf_def)

lemma mark_frame [simp]:
  "pointer (mark idx st A) = pointer A" "beam (mark idx st A) = beam A"
  "length (tokens (mark idx st A)) = length (tokens A)"
  by (simp_all add: mark_def)

lemma applyStep_frame [simp]:
  "pointer (applyStep x A) = pointer A" "beam (applyStep x A) = beam A"
  by (cases x; simp)+

lemma applyPath_frame [simp]:
  "pointer (applyPath steps A) = pointer A" "beam (applyPath steps A) = beam A"
  unfolding applyPath_def by (induction steps arbitrary: A) simp_all

lemma checkAdvancement_pointer:
  assumes "beamAhead A"
  shows "pointer A \<le> pointer (checkAdvancement A)" and "beamAhead (checkAdvancement A)"
proof -
  show "pointer A \<le> pointer (checkAdvancement A)"
  proof (cases "beam A = []")
    case True
    then show ?thesis by (simp add: checkAdvancement_def)
  next
    case False
    from bestOf_mem [OF this] assms have "pointer A \<le> textPos (bestOf (beam A))"
      by (auto simp: beamAhead_def list_all_iff)
    then show ?thesis
      using False by (simp add: checkAdvancement_def Let_def resetBeam_def setPointer_def)
  qed
  show "beamAhead (checkAdvancement A)"
    using assms
    by (simp add: checkAdvancement_def Let_def resetBeam_def setPointer_def beamAhead_def)
qed

lemma checkAdvancement_empty: "beam A = [] \<Longrightarrow> checkAdvancement A = A"
  by (simp add: checkAdvancement_def)

lemma processBeamSearch_pointer:
  assumes "processBeamSearch lib A = Inr A'" and "beamAhead A"
  shows "pointer A \<le> pointer A' \<and> beamAhead A'"
proof (cases "spokenBuffer A = []")
  case True
  with assms show ?thesis by (simp add: processBeamSearch_def)
next
  case False
  with assms(1) obtain A1 where
    1: "expandAll lib A (spokenBuffer A) = Inr A1"
    and 2: "A' = (checkAdvancement A1)\<lparr>spokenBuffer := []\<rparr>"
    by (auto simp: processBeamSearch_def split: sum.splits)
  from expandAll_beamAhead [OF 1 assms(2)] have b: "beamAhead A1" .
  from checkAdvancement_pointer [OF b] expandAll_frame [OF 1]
  show ?thesis by (simp add: 2 beamAhead_def)
qed

lemma processBeamSearch_total:
  assumes "beamAhead A" and "0 \<le> pointer A"
  shows "\<exists>A'. processBeamSearch lib A = Inr A'"
  using expandAll_total [OF assms, of lib "spokenBuffer A"]
  by (auto simp: processBeamSearch_def)

lemma advanceWithPhrase_pointer:
  assumes "advanceWithPhrase lib A phrase = Inr (n, A')" and "beamAhead A"
  shows "pointer A \<le> pointer A' \<and> beamAhead A'"
proof (cases "phrase = []")
  case True
  with assms show ?thesis by (simp add: advanceWithPhrase_def)
next
  case False
  with assms(1) have
    "processBeamSearch lib (A\<lparr>spokenBuffer := spokenBuffer A @ phraseWords phrase\<rparr>) = Inr A'"
    by (auto simp: advanceWithPhrase_def Let_def split: sum.splits)
  from processBeamSearch_pointer [OF this] assms(2) show ?thesis
    by (simp add: beamAhead_def)
qed

lemma advanceWithPhrase_total:
  assumes "beamAhead A" and "0 \<le> pointer A"
  shows "\<exists>n A'. advanceWithPhrase lib A phrase = Inr (n, A')"
proof -
  have "beamAhead (A\<lparr>spokenBuffer := spokenBuffer A @ phraseWords phrase\<rparr>)"
    "0 \<le> pointer (A\<lparr>spokenBuffer := spokenBuffer A @ phraseWords phrase\<rparr>)"
    using assms by (simp_all add: beamAhead_def)
  from processBeamSearch_total [OF this, of lib] show ?thesis
    by (auto simp: advanceWithPhrase_def Let_def)
qed

lemma beamAhead_newAligner: "beamAhead (newAligner ts)" "beamAhead (newAlignerPlain ts)"
  by (simp_all add: beamAhead_def newAligner_def newAlignerPlain_def resetBeam_def)

lemma setConfig_frame [simp]:
  "pointer (setConfig c A) = pointer A" "beam (setConfig c A) = beam A"
  "tokens (setConfig c A) = tokens A"
  by (simp_all add: setConfig_def Let_def split: option.splits)

lemma reachableAligner_beamAhead: "reachableAligner lib A \<Longrightarrow> beamAhead A"
proof (induction rule: reachableAligner.induct)
  case (ra_new ts)
  show ?case by (rule beamAhead_newAligner)
next
  case (ra_plain ts)
  show ?case by (rule beamAhead_newAligner)
next
  case (ra_config A c)
  then show ?case by (simp add: beamAhead_def)
next
  case (ra_round A phrase n A')
  from advanceWithPhrase_pointer [OF ra_round(2) ra_round.IH] show ?case by simp
qed


text \<open>
  A round that starts with every hypothesis of the beam at or ahead of the pointer
  does not lower the pointer and ends with the beam at or ahead of it again; such a
  round returns whenever the pointer is not negative. The condition holds after
  construction, after \<open>setConfig\<close> and after every round (lemma
  \<open>reachableAligner_beamAhead\<close>).
\<close>

lemma advanceWithPhrase_monotone:
  assumes "beamAhead A"
  shows "(\<forall>n A'. advanceWithPhrase lib A phrase = Inr (n, A')
            \<longrightarrow> pointer A \<le> pointer A' \<and> beamAhead A')
         \<and> (0 \<le> pointer A \<longrightarrow> (\<exists>n A'. advanceWithPhrase lib A phrase = Inr (n, A')))"
  using advanceWithPhrase_pointer [of lib A phrase] advanceWithPhrase_total [of A lib phrase] assms
  by blast

lemma demo_round:
  "advanceWithPhrase plainLibrary (newAlignerPlain demoTokens) ''a b'' = Inr (2, demoAfter)"
  by code_simp

lemma advanceWithPhrase_monotone_example:
  "beamAhead (newAlignerPlain demoTokens)
   \<and> advanceWithPhrase plainLibrary (newAlignerPlain demoTokens) ''a b'' = Inr (2, demoAfter)
   \<and> pointer (newAlignerPlain demoTokens) = 0 \<and> pointer demoAfter = 3
   \<and> pointer (newAlignerPlain demoTokens) \<le> pointer demoAfter"
proof -
  have b: "beamAhead (newAlignerPlain demoTokens)" by (rule beamAhead_newAligner)
  have p0: "pointer (newAlignerPlain demoTokens) = 0" by code_simp
  have p3: "pointer demoAfter = 3" by (simp add: demoAfter_def)
  from advanceWithPhrase_monotone [OF b, of plainLibrary "''a b''"] demo_round
  have "pointer (newAlignerPlain demoTokens) \<le> pointer demoAfter" by blast
  with b demo_round p0 p3 show ?thesis by blast
qed

text \<open>
  C5. A round should never lower the committed pointer. It does in the round that
  follows a manual jump: \<open>setPointer\<close> of \<open>app.js\<close> writes the pointer of the aligner
  and leaves its beam, where the constructor and the commit reseed the beam with
  \<open>_resetBeam\<close> after they set the pointer. After a jump to the word at index 2 the
  beam still holds the hypothesis at position 0; the round that hears "abcdeg"
  commits the substitution at token 0 and sets the pointer to 1.
\<close>

theorem round_after_jump_regresses:
  "st_aligner (appSetPointer 2 jumpSession) = Some jumpedAligner
   \<and> pointer jumpedAligner = 2
   \<and> beam jumpedAligner = [\<lparr>textPos = 0, spokenPos = 0, cost = 0, path = []\<rparr>]
   \<and> advanceWithPhrase plainLibrary jumpedAligner ''abcdeg'' = Inr (1, regressedAligner)
   \<and> pointer regressedAligner = 1"
  by code_simp

text \<open>
  If every hypothesis of the beam has a text position at or past the end of the
  token sequence, expanding with any spoken word leaves the beam empty; and while the
  beam is empty, every \<open>advanceWithPhrase\<close> call returns the number of normalised
  words of its phrase, changes no token, does not move the pointer and leaves the
  beam empty.
\<close>

lemma empty_beam_is_inert:
  "(list_all (\<lambda>s. int (length (tokens A)) \<le> textPos s) (beam A)
      \<longrightarrow> expandBeam lib A spokenWord = Inr (A\<lparr>beam := []\<rparr>))
   \<and> (beam A = []
      \<longrightarrow> (\<exists>A'. advanceWithPhrase lib A phrase = Inr (length (phraseWords phrase), A')
               \<and> tokens A' = tokens A \<and> pointer A' = pointer A \<and> beam A' = []))"
proof (intro conjI impI)
  assume "list_all (\<lambda>s. int (length (tokens A)) \<le> textPos s) (beam A)"
  from expandStates_past_end [OF this]
  show "expandBeam lib A spokenWord = Inr (A\<lparr>beam := []\<rparr>)"
    by (simp add: expandBeam_def Let_def pruneBeam_def)
next
  assume e: "beam A = []"
  have ex: "expandAll lib B ws = Inr B" if "beam B = []" for B ws
    using that
  proof (induction ws)
    case Nil
    then show ?case by simp
  next
    case (Cons w ws)
    have "B\<lparr>beam := beam B\<rparr> = B" by simp
    then have eq: "B\<lparr>beam := []\<rparr> = B" using Cons.prems by simp
    have "expandBeam lib B w = Inr (B\<lparr>beam := []\<rparr>)"
      using Cons.prems by (simp add: expandBeam_def Let_def pruneBeam_def)
    then have "expandBeam lib B w = Inr B" by (simp only: eq)
    then show ?case using Cons.IH [OF Cons.prems] by simp
  qed
  show "\<exists>A'. advanceWithPhrase lib A phrase = Inr (length (phraseWords phrase), A')
               \<and> tokens A' = tokens A \<and> pointer A' = pointer A \<and> beam A' = []"
  proof (cases "phrase = []")
    case True
    then show ?thesis
      using e by (simp add: advanceWithPhrase_def phraseWords_def splitWhitespace_def
                    normalizeWord_def truthy_def)
  next
    case False
    let ?B = "A\<lparr>spokenBuffer := spokenBuffer A @ phraseWords phrase\<rparr>"
    have "beam ?B = []" using e by simp
    from ex [OF this] checkAdvancement_empty [OF this]
    show ?thesis
      using False e by (simp add: advanceWithPhrase_def Let_def processBeamSearch_def)
  qed
qed

lemma empty_beam_is_inert_example:
  "list_all (\<lambda>s. int (length (tokens demoAfter)) \<le> textPos s) (beam demoAfter)
   \<and> expandBeam plainLibrary demoAfter ''a'' = Inr (demoAfter\<lparr>beam := []\<rparr>)
   \<and> beam (demoAfter\<lparr>beam := []\<rparr>) = []
   \<and> (\<exists>A'. advanceWithPhrase plainLibrary (demoAfter\<lparr>beam := []\<rparr>) ''a b'' = Inr (2, A')
           \<and> tokens A' = tokens demoAfter \<and> pointer A' = 3 \<and> beam A' = [])"
proof -
  have h: "list_all (\<lambda>s. int (length (tokens demoAfter)) \<le> textPos s) (beam demoAfter)"
    by (simp add: demoAfter_def)
  have e: "beam (demoAfter\<lparr>beam := []\<rparr>) = []" by simp
  have n: "length (phraseWords ''a b'') = 2" by code_simp
  have p: "pointer demoAfter = 3" by (simp add: demoAfter_def)
  from empty_beam_is_inert [of demoAfter plainLibrary "''a''"] h
  have 1: "expandBeam plainLibrary demoAfter ''a'' = Inr (demoAfter\<lparr>beam := []\<rparr>)" by blast
  from empty_beam_is_inert [of "demoAfter\<lparr>beam := []\<rparr>" plainLibrary _ "''a b''"] e
  obtain A' where
    "advanceWithPhrase plainLibrary (demoAfter\<lparr>beam := []\<rparr>) ''a b''
       = Inr (length (phraseWords ''a b''), A')"
    "tokens A' = tokens demoAfter" "pointer A' = pointer demoAfter" "beam A' = []"
    by auto
  with h 1 e n p show ?thesis by auto
qed

lemma setPointer_keeps_beam: "beam (setPointer idx A) = beam A"
  by (simp add: setPointer_def)

text \<open>
  C9. The empty beam should last until \<open>setPointer\<close> reseeds it. \<open>setPointer\<close> does
  not reseed it: it writes the pointer and leaves the beam, where the constructor
  and the commit reseed the beam with \<open>_resetBeam\<close> after they set the pointer. Once
  the text "a b" has been read to its end and one more word has emptied the beam,
  moving the pointer back to the first word leaves the beam empty, and the phrase
  "a b" is counted (2 words) and changes neither a token nor the pointer.
\<close>

theorem setPointer_does_not_reseed:
  "advanceWithPhrase plainLibrary (newAlignerPlain demoTokens) ''a b'' = Inr (2, demoAfter)
   \<and> advanceWithPhrase plainLibrary demoAfter ''a'' = Inr (1, demoAfter\<lparr>beam := []\<rparr>)
   \<and> beam (setPointer 0 (demoAfter\<lparr>beam := []\<rparr>)) = []
   \<and> advanceWithPhrase plainLibrary (setPointer 0 (demoAfter\<lparr>beam := []\<rparr>)) ''a b''
       = Inr (2, setPointer 0 (demoAfter\<lparr>beam := []\<rparr>))"
  by code_simp

end
